theory Spec2Isabelle
  imports Main "HOL-Library.AList"
begin

section \<open>The signalling relay of server.js\<close>

text \<open>
  The server keeps three pieces of state: the \<open>Map\<close> \<open>sockets\<close> (identifier to
  \<open>ws\<close> object), the \<open>ws\<close> objects themselves (each with \<open>readyState\<close>, the
  \<open>isAlive\<close> flag and the closure variable \<open>myId\<close> of its connection handler), and
  the file \<open>online.json\<close>, which \<open>loadOnline\<close> reads and \<open>saveOnline\<close> writes on
  every presence change. The code has no in-memory presence map: the presence list
  of a broadcast and of the \<open>/online\<close> route is what \<open>loadOnline\<close> returns.

  Node runs every handler to completion, one at a time, so a handler is a function
  from state to state. A handler can end by an uncaught exception; JavaScript does
  not undo the assignments made before the \<open>throw\<close>, so a handler returns the state
  it reached together with how it ended.
\<close>

subsection \<open>JSON values\<close>

text \<open>
  A number that \<open>JSON.parse\<close> has read is a double. A finite double is named by the
  text \<open>Number.prototype.toString\<close> gives for it, which is also what \<open>JSON.stringify\<close>
  writes for it and what it becomes as a property key; \<open>0\<close> and \<open>-0\<close> both have the
  text \<open>0\<close>. A literal beyond the range of doubles, such as \<open>1e999\<close>, is read as an
  infinity.
\<close>
datatype number = Finite string | PosInfinity | NegInfinity

text \<open>
  What \<open>JSON.parse\<close> returns: an object is the list of its own properties in
  enumeration order. A JSON text is given by the value \<open>JSON.parse\<close> reads from it.
\<close>
datatype json =
    JNull
  | JBool bool
  | JNum number
  | JStr string
  | JArr "json list"
  | JObj "(string \<times> json) list"

text \<open>
  The text \<open>JSON.stringify\<close> writes for a value that came from \<open>JSON.parse\<close>: it
  writes \<open>null\<close> for an infinity and everything else as it is.
\<close>
primrec JSON_stringify :: "json \<Rightarrow> json" where
  "JSON_stringify JNull = JNull"
| "JSON_stringify (JBool b) = JBool b"
| "JSON_stringify (JNum n) = (case n of Finite t \<Rightarrow> JNum (Finite t) | _ \<Rightarrow> JNull)"
| "JSON_stringify (JStr t) = JStr t"
| "JSON_stringify (JArr xs) = JArr (map JSON_stringify xs)"
| "JSON_stringify (JObj ms) = JObj (map (map_prod id JSON_stringify) ms)"

text \<open>
  \<open>v.k\<close> for a value \<open>v\<close> other than \<open>null\<close> and one of the names the server reads
  (\<open>type\<close>, \<open>me\<close>, \<open>to\<close>, \<open>id\<close>, \<open>name\<close>, \<open>avatar\<close>, \<open>users\<close>), none of which is
  on a prototype: the own property of an object, \<open>undefined\<close> (\<open>None\<close>) otherwise.
\<close>
definition member :: "string \<Rightarrow> json \<Rightarrow> json option" where
  "member k v = (case v of JObj ms \<Rightarrow> map_of ms k | _ \<Rightarrow> None)"

text \<open>\<open>!v\<close> is false.\<close>
definition truthy :: "json \<Rightarrow> bool" where
  "truthy v =
     (case v of
        JNull \<Rightarrow> False
      | JBool b \<Rightarrow> b
      | JNum n \<Rightarrow> n \<noteq> Finite ''0''
      | JStr t \<Rightarrow> t \<noteq> []
      | JArr xs \<Rightarrow> True
      | JObj ms \<Rightarrow> True)"

definition is_object :: "json \<Rightarrow> bool" where
  "is_object v = (case v of JArr xs \<Rightarrow> True | JObj ms \<Rightarrow> True | _ \<Rightarrow> False)"

fun join :: "string list \<Rightarrow> string" where
  "join [] = []"
| "join [t] = t"
| "join (t # ts) = t @ '','' @ join ts"

text \<open>
  The conversion of a value to a property key; \<open>None\<close> is a \<open>TypeError\<close>. An array
  is joined with commas, \<open>null\<close> elements as the empty text. An object from
  \<open>JSON.parse\<close> gives \<open>[object Object]\<close> by the inherited \<open>toString\<close>; with an own
  property \<open>toString\<close>, which is never a function, the conversion finds no method
  that returns a primitive and throws.
\<close>
fun ToString :: "json \<Rightarrow> string option" where
  "ToString JNull = Some ''null''"
| "ToString (JBool b) = Some (if b then ''true'' else ''false'')"
| "ToString (JNum n) =
     Some (case n of Finite t \<Rightarrow> t | PosInfinity \<Rightarrow> ''Infinity'' | NegInfinity \<Rightarrow> ''-Infinity'')"
| "ToString (JStr t) = Some t"
| "ToString (JArr xs) =
     (let ts = map (\<lambda>x. if x = JNull then Some [] else ToString x) xs
      in if list_all (\<lambda>t. t \<noteq> None) ts then Some (join (map the ts)) else None)"
| "ToString (JObj ms) =
     (if ''toString'' \<in> fst ` set ms then None else Some ''[object Object]'')"

subsection \<open>Data\<close>

text \<open>The address of a \<open>ws\<close> object.\<close>
type_synonym cid = nat

datatype ready_state = CONNECTING | OPEN | CLOSING | CLOSED

text \<open>
  The value of \<open>msg.me.id\<close>, which \<open>myId\<close> holds and \<open>sockets\<close> has as a key. A
  \<open>Map\<close> compares a primitive by value, so the number \<open>5\<close> and the string \<open>"5"\<close> are
  two keys, and an array or object by identity: \<open>Object a v\<close> is the array or object
  at address \<open>a\<close>, with contents \<open>v\<close>.
\<close>
datatype ident = Primitive json | Object nat json

fun value_of :: "ident \<Rightarrow> json" where
  "value_of (Primitive v) = v"
| "value_of (Object a v) = v"

text \<open>The property key that \<open>state.users[myId]\<close> uses.\<close>
definition key_of :: "ident \<Rightarrow> string option" where
  "key_of i = ToString (value_of i)"

text \<open>\<open>myId\<close> is \<open>None\<close> when it is \<open>undefined\<close>, and at first, when it is \<open>null\<close>.\<close>
record conn =
  readyState :: ready_state
  isAlive :: bool
  myId :: "ident option"

text \<open>
  The two kinds of text the server sends: \<open>JSON.stringify({ type: "online", users })\<close>,
  given by the elements of \<open>users\<close> as written, and a relayed message
  \<open>JSON.stringify(msg)\<close>.
\<close>
datatype payload = Online "json list" | Relay json

text \<open>The calls the server makes on \<open>ws\<close> objects, in the order it makes them.\<close>
datatype out = Send cid payload | Ping cid | Terminate cid

datatype outcome = Returned | Threw

text \<open>
  \<open>conns\<close> is the store of \<open>ws\<close> objects and \<open>next_ws\<close> the address of the next one
  created; a registry entry holds an address, so two entries can name one object.
  \<open>next_obj\<close> is the address of the next array or object that becomes a \<open>myId\<close>.
  \<open>sockets\<close> is the \<open>Map\<close>, in insertion order, which is its iteration order.
  \<open>state_file\<close> is what \<open>JSON.parse\<close> returns for \<open>online.json\<close>, whatever value
  that is, and \<open>None\<close> when the file is missing or is not JSON. \<open>disk_ok\<close> says
  whether \<open>fs.writeFileSync\<close> succeeds. \<open>outs\<close> records the calls made on \<open>ws\<close>
  objects.
\<close>
record state =
  conns :: "cid \<Rightarrow> conn"
  next_ws :: cid
  next_obj :: nat
  sockets :: "(ident \<times> cid) list"
  state_file :: "json option"
  disk_ok :: bool
  outs :: "out list"

subsection \<open>The \<open>users\<close> member\<close>

text \<open>
  An ordinary JavaScript object, as the list of its own properties in the order
  \<open>Object.values\<close> and \<open>JSON.stringify\<close> enumerate them: array indices first, in
  ascending order, then the other keys in the order they were created.
  An array index is the canonical decimal text of an integer below \<open>2^32 - 1\<close>.
\<close>
definition array_index :: "string \<Rightarrow> nat option" where
  "array_index k =
     (if k = [] then None
      else if list_all (\<lambda>c. c \<in> set ''0123456789'') k
      then (if hd k = CHR ''0'' \<and> k \<noteq> ''0'' then None
            else let n = foldl (\<lambda>a c. 10 * a + (of_char c - 48)) 0 k
                 in if n < 2 ^ 32 - 1 then Some n else None)
      else None)"

fun insert_index :: "nat \<Rightarrow> string \<Rightarrow> 'v \<Rightarrow> (string \<times> 'v) list \<Rightarrow> (string \<times> 'v) list" where
  "insert_index n k v [] = [(k, v)]"
| "insert_index n k v ((k', v') # ps) =
     (case array_index k' of
        Some m \<Rightarrow> if m < n then (k', v') # insert_index n k v ps
                  else (k, v) # (k', v') # ps
      | None \<Rightarrow> (k, v) # (k', v') # ps)"

text \<open>
  \<open>obj[k] = v\<close>, for \<open>v\<close> an object. An own property keeps its place and takes the
  new value; a new key is added in enumeration order. The key \<open>__proto__\<close> is the
  exception: on an object that has no own property of that name (\<open>JSON.parse\<close>
  creates one only if the text has it) the assignment runs the accessor \<open>__proto__\<close>
  inherited from \<open>Object.prototype\<close>, which sets the prototype and creates no property,
  so the properties that \<open>Object.values\<close> and \<open>JSON.stringify\<close> enumerate stay as they
  are.
\<close>
definition obj_set :: "string \<Rightarrow> 'v \<Rightarrow> (string \<times> 'v) list \<Rightarrow> (string \<times> 'v) list" where
  "obj_set k v ps =
     (case map_of ps k of
        Some _ \<Rightarrow> AList.update k v ps
      | None \<Rightarrow>
          if k = ''__proto__'' then ps
          else (case array_index k of
                  Some n \<Rightarrow> insert_index n k v ps
                | None \<Rightarrow> ps @ [(k, v)]))"

text \<open>\<open>delete obj[k]\<close>.\<close>
definition obj_delete :: "string \<Rightarrow> (string \<times> 'v) list \<Rightarrow> (string \<times> 'v) list" where
  "obj_delete k ps = AList.delete k ps"

text \<open>
  \<open>arr[k] = v\<close> on an array that \<open>JSON.parse\<close> returned, for \<open>v\<close> an object, as far
  as \<open>JSON.stringify\<close> shows it; \<open>None\<close> is an exception. An index beyond the end
  lengthens the array, and \<open>JSON.stringify\<close> writes \<open>null\<close> for the elements left
  out. Assigning an object to \<open>length\<close> is a \<open>RangeError\<close>. Any other key becomes a
  property that \<open>JSON.stringify\<close> does not write (\<open>__proto__\<close> sets the prototype).
\<close>
definition arr_set :: "string \<Rightarrow> json \<Rightarrow> json list \<Rightarrow> json list option" where
  "arr_set k v xs =
     (if k = ''length'' then None
      else case array_index k of
             Some n \<Rightarrow> Some (if n < length xs then xs[n := v]
                            else xs @ replicate (n - length xs) JNull @ [v])
           | None \<Rightarrow> Some xs)"

text \<open>
  \<open>delete arr[k]\<close>. A deleted element leaves a hole, for which \<open>JSON.stringify\<close>
  writes \<open>null\<close>; \<open>length\<close> cannot be deleted, and the module is strict code, so
  the attempt is a \<open>TypeError\<close>.
\<close>
definition arr_delete :: "string \<Rightarrow> json list \<Rightarrow> json list option" where
  "arr_delete k xs =
     (if k = ''length'' then None
      else case array_index k of
             Some n \<Rightarrow> Some (if n < length xs then xs[n := JNull] else xs)
           | None \<Rightarrow> Some xs)"

text \<open>
  \<open>state.users[k] = v\<close>, for \<open>v\<close> an object; the result is \<open>state\<close> afterwards, as far
  as \<open>JSON.stringify\<close> shows it, and \<open>None\<close> is an exception. If \<open>state\<close> is not an
  object with a member \<open>users\<close>, then \<open>state.users\<close> is \<open>undefined\<close> or cannot be
  read, and if \<open>users\<close> is \<open>null\<close> or a primitive, the assignment throws (the module
  is strict code).
\<close>
definition users_set :: "string \<Rightarrow> json \<Rightarrow> json \<Rightarrow> json option" where
  "users_set k v st =
     (case st of
        JObj ms \<Rightarrow>
          (case map_of ms ''users'' of
             Some (JObj ps) \<Rightarrow> Some (JObj (AList.update ''users'' (JObj (obj_set k v ps)) ms))
           | Some (JArr xs) \<Rightarrow>
               (case arr_set k v xs of
                  Some ys \<Rightarrow> Some (JObj (AList.update ''users'' (JArr ys) ms))
                | None \<Rightarrow> None)
           | _ \<Rightarrow> None)
      | _ \<Rightarrow> None)"

text \<open>
  \<open>delete state.users[k]\<close>, likewise. On a number or a boolean it does nothing; on a
  string it does nothing either, unless \<open>k\<close> is \<open>length\<close> or the index of a
  character, which cannot be deleted.
\<close>
definition users_delete :: "string \<Rightarrow> json \<Rightarrow> json option" where
  "users_delete k st =
     (case st of
        JObj ms \<Rightarrow>
          (case map_of ms ''users'' of
             Some (JObj ps) \<Rightarrow> Some (JObj (AList.update ''users'' (JObj (obj_delete k ps)) ms))
           | Some (JArr xs) \<Rightarrow>
               (case arr_delete k xs of
                  Some ys \<Rightarrow> Some (JObj (AList.update ''users'' (JArr ys) ms))
                | None \<Rightarrow> None)
           | Some (JStr t) \<Rightarrow>
               (if k = ''length'' then None
                else case array_index k of
                       Some n \<Rightarrow> if n < length t then None else Some st
                     | None \<Rightarrow> Some st)
           | Some (JBool b) \<Rightarrow> Some st
           | Some (JNum n) \<Rightarrow> Some st
           | _ \<Rightarrow> None)
      | _ \<Rightarrow> None)"

text \<open>
  \<open>Object.values(state.users)\<close>; \<open>None\<close> is the \<open>TypeError\<close> for \<open>undefined\<close> and
  \<open>null\<close>. A number or a boolean has no own properties; a string has its
  characters.
\<close>
definition Object_values :: "json \<Rightarrow> json list option" where
  "Object_values st =
     (case st of
        JObj ms \<Rightarrow>
          (case map_of ms ''users'' of
             Some (JObj ps) \<Rightarrow> Some (map snd ps)
           | Some (JArr xs) \<Rightarrow> Some xs
           | Some (JStr t) \<Rightarrow> Some (map (\<lambda>c. JStr [c]) t)
           | Some (JBool b) \<Rightarrow> Some []
           | Some (JNum n) \<Rightarrow> Some []
           | _ \<Rightarrow> None)
      | _ \<Rightarrow> None)"

subsection \<open>State helpers\<close>

text \<open>
  \<open>loadOnline\<close> returns what \<open>JSON.parse\<close> returns, and \<open>{ users: {} }\<close> when
  reading or parsing fails. \<open>saveOnline\<close> has no \<open>try\<close>: a failing
  \<open>fs.writeFileSync\<close> throws.
\<close>
definition loadOnline :: "state \<Rightarrow> json" where
  "loadOnline s = (case state_file s of Some v \<Rightarrow> v | None \<Rightarrow> JObj [(''users'', JObj [])])"

definition saveOnline :: "json \<Rightarrow> state \<Rightarrow> outcome \<times> state" where
  "saveOnline st s =
     (if disk_ok s then (Returned, s\<lparr>state_file := Some (JSON_stringify st)\<rparr>) else (Threw, s))"

text \<open>Statement sequencing: what follows a call runs only if the call returned.\<close>
definition seq :: "outcome \<times> state \<Rightarrow> (state \<Rightarrow> outcome \<times> state) \<Rightarrow> outcome \<times> state" where
  "seq r f = (case fst r of Threw \<Rightarrow> r | Returned \<Rightarrow> f (snd r))"

subsection \<open>Calls on a \<open>ws\<close> object\<close>

text \<open>
  \<open>send\<close> is called on open channels only and queues the frame; \<open>ping\<close> and
  \<open>terminate\<close> are called inside \<open>try\<close>, so none of the three ends a handler.
\<close>

definition ws_send :: "cid \<Rightarrow> payload \<Rightarrow> state \<Rightarrow> state" where
  "ws_send ws p s = s\<lparr>outs := outs s @ [Send ws p]\<rparr>"

definition ws_ping :: "cid \<Rightarrow> state \<Rightarrow> state" where
  "ws_ping ws s = s\<lparr>outs := outs s @ [Ping ws]\<rparr>"

text \<open>\<open>terminate\<close> destroys the socket; the \<open>close\<close> event comes later.\<close>
definition ws_terminate :: "cid \<Rightarrow> state \<Rightarrow> state" where
  "ws_terminate ws s =
     s\<lparr>conns := (conns s)(ws := (conns s ws)
                   \<lparr>readyState := (if readyState (conns s ws) = CLOSED then CLOSED else CLOSING)\<rparr>),
       outs := outs s @ [Terminate ws]\<rparr>"

definition set_isAlive :: "cid \<Rightarrow> bool \<Rightarrow> state \<Rightarrow> state" where
  "set_isAlive ws b s = s\<lparr>conns := (conns s)(ws := (conns s ws)\<lparr>isAlive := b\<rparr>)\<rparr>"

definition set_myId :: "cid \<Rightarrow> ident option \<Rightarrow> state \<Rightarrow> state" where
  "set_myId ws i s = s\<lparr>conns := (conns s)(ws := (conns s ws)\<lparr>myId := i\<rparr>)\<rparr>"

definition set_readyState :: "cid \<Rightarrow> ready_state \<Rightarrow> state \<Rightarrow> state" where
  "set_readyState ws r s = s\<lparr>conns := (conns s)(ws := (conns s ws)\<lparr>readyState := r\<rparr>)\<rparr>"

subsection \<open>\<open>broadcastOnline\<close>\<close>

text \<open>The \<open>for\<close> loop over \<open>sockets.values()\<close>.\<close>
fun send_each :: "payload \<Rightarrow> cid list \<Rightarrow> state \<Rightarrow> state" where
  "send_each p [] s = s"
| "send_each p (ws # rest) s =
     send_each p rest (if readyState (conns s ws) = OPEN then ws_send ws p s else s)"

definition broadcastOnline :: "state \<Rightarrow> outcome \<times> state" where
  "broadcastOnline s =
     (case Object_values (loadOnline s) of
        None \<Rightarrow> (Threw, s)
      | Some users \<Rightarrow>
          let p = Online (map JSON_stringify users)
          in (Returned, send_each p (map snd (sockets s)) s))"

subsection \<open>The connection handlers\<close>

text \<open>\<open>wss.on("connection")\<close>: a new \<open>ws\<close> object, open, with \<open>myId = null\<close>.\<close>
definition on_connection :: "state \<Rightarrow> state" where
  "on_connection s =
     s\<lparr>conns := (conns s)(next_ws s := \<lparr>readyState = OPEN, isAlive = True, myId = None\<rparr>),
       next_ws := Suc (next_ws s)\<rparr>"

definition on_pong :: "cid \<Rightarrow> state \<Rightarrow> state" where
  "on_pong ws s = set_isAlive ws True s"

text \<open>\<open>msg.me?.id\<close>.\<close>
definition hello_id :: "json \<Rightarrow> json option" where
  "hello_id msg = (case member ''me'' msg of None \<Rightarrow> None | Some m \<Rightarrow> member ''id'' m)"

text \<open>
  \<open>{ id: myId, name: msg.me.name, avatar: msg.me.avatar }\<close>, for a \<open>myId\<close> that is
  not \<open>undefined\<close>. A property whose value is \<open>undefined\<close> is left out:
  \<open>JSON.stringify\<close> does not write it.
\<close>
definition entry :: "json \<Rightarrow> json \<Rightarrow> json" where
  "entry v msg =
     JObj ((''id'', v)
           # (case Option.bind (member ''me'' msg) (member ''name'') of
                None \<Rightarrow> [] | Some n \<Rightarrow> [(''name'', n)])
           @ (case Option.bind (member ''me'' msg) (member ''avatar'') of
                None \<Rightarrow> [] | Some a \<Rightarrow> [(''avatar'', a)]))"

text \<open>
  The value of \<open>msg.me.id\<close> as \<open>myId\<close> holds it. An array or an object is a new
  one, made by the \<open>JSON.parse\<close> of this message, at the address \<open>a\<close>.
\<close>
definition ident_of :: "nat \<Rightarrow> json \<Rightarrow> ident" where
  "ident_of a v = (if is_object v then Object a v else Primitive v)"

text \<open>The \<open>hello\<close> branch. \<open>myId\<close> is assigned before it is tested.\<close>
definition hello :: "cid \<Rightarrow> json \<Rightarrow> state \<Rightarrow> outcome \<times> state" where
  "hello ws msg s =
     (case hello_id msg of
        None \<Rightarrow> (Returned, set_myId ws None s)
      | Some v \<Rightarrow>
          let i = ident_of (next_obj s) v;
              s1 = (set_myId ws (Some i) s)
                     \<lparr>next_obj := (if is_object v then Suc (next_obj s) else next_obj s)\<rparr>
          in if \<not> truthy v then (Returned, s1)
             else let s2 = s1\<lparr>sockets := AList.update i ws (sockets s1)\<rparr>
                  in case Option.bind (key_of i) (\<lambda>k. users_set k (entry v msg) (loadOnline s2)) of
                       None \<Rightarrow> (Threw, s2)
                     | Some st \<Rightarrow> seq (saveOnline st s2) broadcastOnline)"

text \<open>
  \<open>sockets.get(v)\<close> for a member \<open>v\<close> of a message, \<open>None\<close> when \<open>v\<close> is
  \<open>undefined\<close>. An array or object in a message is a new object, made by the
  \<open>JSON.parse\<close> of that message, which is no key of \<open>sockets\<close>.
\<close>
definition sockets_get :: "json option \<Rightarrow> state \<Rightarrow> cid option" where
  "sockets_get v s =
     (case v of
        None \<Rightarrow> None
      | Some t \<Rightarrow> if is_object t then None else map_of (sockets s) (Primitive t))"

text \<open>The branch of \<open>offer\<close>, \<open>answer\<close>, \<open>ice\<close> and \<open>end\<close>.\<close>
definition relay :: "json \<Rightarrow> state \<Rightarrow> outcome \<times> state" where
  "relay msg s =
     (case sockets_get (member ''to'' msg) s of
        None \<Rightarrow> (Returned, s)
      | Some target \<Rightarrow>
          if readyState (conns s target) = OPEN
          then (Returned, ws_send target (Relay (JSON_stringify msg)) s)
          else (Returned, s))"

text \<open>
  \<open>ws.on("message")\<close>. The argument is what \<open>JSON.parse\<close> returned, \<open>None\<close> when it
  threw. Reading \<open>msg.type\<close> throws when \<open>msg\<close> is \<open>null\<close>.
\<close>
definition on_message :: "cid \<Rightarrow> json option \<Rightarrow> state \<Rightarrow> outcome \<times> state" where
  "on_message ws m s =
     (case m of
        None \<Rightarrow> (Returned, s)
      | Some msg \<Rightarrow>
          if msg = JNull then (Threw, s)
          else if member ''type'' msg = Some (JStr ''hello'') then hello ws msg s
          else if member ''type'' msg = Some (JStr ''offer'')
                \<or> member ''type'' msg = Some (JStr ''answer'')
                \<or> member ''type'' msg = Some (JStr ''ice'')
                \<or> member ''type'' msg = Some (JStr ''end'') then relay msg s
          else if member ''type'' msg = Some (JStr ''pong'')
          then (Returned, set_isAlive ws True s)
          else (Returned, s))"

text \<open>\<open>ws.on("close")\<close>.\<close>
definition on_close :: "cid \<Rightarrow> state \<Rightarrow> outcome \<times> state" where
  "on_close ws s =
     (case myId (conns s ws) of
        None \<Rightarrow> (Returned, s)
      | Some i \<Rightarrow>
          if \<not> truthy (value_of i) then (Returned, s)
          else let s1 = s\<lparr>sockets := AList.delete i (sockets s)\<rparr>
               in case Option.bind (key_of i) (\<lambda>k. users_delete k (loadOnline s1)) of
                    None \<Rightarrow> (Threw, s1)
                  | Some st \<Rightarrow> seq (saveOnline st s1) broadcastOnline)"

subsection \<open>The heartbeat\<close>

text \<open>
  The loop over \<open>sockets.entries()\<close>. The body deletes at most the entry it is
  visiting, so the loop visits the entries the map had when it started. The calls
  \<open>terminate\<close> and \<open>ping\<close> are inside \<open>try\<close>; the rest is not.
\<close>
fun sweep :: "(ident \<times> cid) list \<Rightarrow> state \<Rightarrow> outcome \<times> state" where
  "sweep [] s = (Returned, s)"
| "sweep ((i, ws) # rest) s =
     (if \<not> isAlive (conns s ws)
      then let s1 = ws_terminate ws s;
               s2 = s1\<lparr>sockets := AList.delete i (sockets s1)\<rparr>
           in case Option.bind (key_of i) (\<lambda>k. users_delete k (loadOnline s2)) of
                None \<Rightarrow> (Threw, s2)
              | Some st \<Rightarrow> seq (saveOnline st s2) (sweep rest)
      else sweep rest (ws_ping ws (set_isAlive ws False s)))"

definition heartbeat :: "state \<Rightarrow> outcome \<times> state" where
  "heartbeat s = seq (sweep (sockets s) s) broadcastOnline"

subsection \<open>The \<open>/online\<close> route\<close>

text \<open>The elements of \<open>users\<close> in the response, as written; \<open>None\<close> is an exception.\<close>
definition http_online :: "state \<Rightarrow> json list option" where
  "http_online s = map_option (map JSON_stringify) (Object_values (loadOnline s))"

subsection \<open>The server as a transition system\<close>

text \<open>
  The events Node delivers. \<open>Closing\<close> is the transport leaving \<open>OPEN\<close> before the
  \<open>close\<close> event; \<open>Disk\<close> is the file system becoming writable or not. An event of
  a connection is delivered only to a \<open>ws\<close> object that exists.
\<close>
datatype event =
    Connection
  | Message cid "json option"
  | PongFrame cid
  | Closing cid
  | Close cid
  | Tick
  | Disk bool

fun step :: "event \<Rightarrow> state \<Rightarrow> outcome \<times> state" where
  "step Connection s = (Returned, on_connection s)"
| "step (Message ws m) s = (if ws < next_ws s then on_message ws m s else (Returned, s))"
| "step (PongFrame ws) s = (if ws < next_ws s then (Returned, on_pong ws s) else (Returned, s))"
| "step (Closing ws) s =
     (if ws < next_ws s \<and> readyState (conns s ws) = OPEN
      then (Returned, set_readyState ws CLOSING s) else (Returned, s))"
| "step (Close ws) s =
     (if ws < next_ws s then on_close ws (set_readyState ws CLOSED s) else (Returned, s))"
| "step Tick s = heartbeat s"
| "step (Disk b) s = (Returned, s\<lparr>disk_ok := b\<rparr>)"

text \<open>An uncaught exception ends the process: the run stops at the first one.\<close>
fun run :: "event list \<Rightarrow> state \<Rightarrow> outcome \<times> state" where
  "run [] s = (Returned, s)"
| "run (e # es) s = seq (step e s) (run es)"

text \<open>The state at start-up, with whatever \<open>online.json\<close> holds.\<close>
definition init :: "json option \<Rightarrow> bool \<Rightarrow> state" where
  "init f d =
     \<lparr>conns = (\<lambda>_. \<lparr>readyState = CLOSED, isAlive = False, myId = None\<rparr>),
      next_ws = 0, next_obj = 0, sockets = [], state_file = f, disk_ok = d, outs = []\<rparr>"

subsection \<open>Notions used in the statements\<close>

text \<open>The calls made between two states of one handler.\<close>
definition new_outs :: "state \<Rightarrow> state \<Rightarrow> out list" where
  "new_outs s s' = drop (length (outs s)) (outs s')"

text \<open>
  The stored presence list: the properties of the \<open>users\<close> object that \<open>loadOnline\<close>
  returns, \<open>None\<close> when it returns no such object.
\<close>
definition presence :: "state \<Rightarrow> (string \<times> json) list option" where
  "presence s = (case member ''users'' (loadOnline s) of Some (JObj ps) \<Rightarrow> Some ps | _ \<Rightarrow> None)"

text \<open>The stored presence list has an entry under the key \<open>x\<close>.\<close>
definition has_key :: "string \<Rightarrow> state \<Rightarrow> bool" where
  "has_key x s \<longleftrightarrow> (\<exists>ps. presence s = Some ps \<and> x \<in> fst ` set ps)"

text \<open>The registry key of the identifier that is the string \<open>x\<close>.\<close>
abbreviation str :: "string \<Rightarrow> ident" where
  "str x \<equiv> Primitive (JStr x)"

text \<open>The event is a \<open>hello\<close> whose identifier is stored under the property key \<open>x\<close>.\<close>
definition binds :: "string \<Rightarrow> event \<Rightarrow> bool" where
  "binds x e =
     (case e of
        Message c (Some msg) \<Rightarrow>
          member ''type'' msg = Some (JStr ''hello'')
          \<and> (case hello_id msg of None \<Rightarrow> False | Some v \<Rightarrow> ToString v = Some x)
      | _ \<Rightarrow> False)"

text \<open>
  The identifier of the event, if it is a \<open>hello\<close> and has one that is not
  \<open>undefined\<close>, is a string, or a value that the test \<open>!myId\<close> rejects.
\<close>
definition string_id :: "event \<Rightarrow> bool" where
  "string_id e =
     (case e of
        Message c (Some msg) \<Rightarrow>
          (if member ''type'' msg = Some (JStr ''hello'')
           then (case hello_id msg of
                   None \<Rightarrow> True
                 | Some (JStr t) \<Rightarrow> True
                 | Some v \<Rightarrow> \<not> truthy v)
           else True)
      | _ \<Rightarrow> True)"

subsection \<open>Notions used in the proofs\<close>

text \<open>
  The two branches of the heartbeat loop, as state changes: the eviction up to the
  call of \<open>loadOnline\<close>, and the probe.
\<close>
definition evict :: "ident \<Rightarrow> cid \<Rightarrow> state \<Rightarrow> state" where
  "evict i ws s = (ws_terminate ws s)\<lparr>sockets := AList.delete i (sockets s)\<rparr>"

definition probe :: "cid \<Rightarrow> state \<Rightarrow> state" where
  "probe ws s = ws_ping ws (set_isAlive ws False s)"

text \<open>
  The state of the \<open>hello\<close> branch after \<open>sockets.set\<close>, for the identifier \<open>v\<close>,
  and the state of the \<open>close\<close> handler after \<open>sockets.delete\<close>.
\<close>
definition bound :: "json \<Rightarrow> cid \<Rightarrow> state \<Rightarrow> state" where
  "bound v ws s =
     (set_myId ws (Some (ident_of (next_obj s) v)) s)
       \<lparr>next_obj := (if is_object v then Suc (next_obj s) else next_obj s),
        sockets := AList.update (ident_of (next_obj s) v) ws (sockets s)\<rparr>"

definition released :: "ident \<Rightarrow> state \<Rightarrow> state" where
  "released i s = s\<lparr>sockets := AList.delete i (sockets s)\<rparr>"

text \<open>\<open>state.users[i] = e\<close> and \<open>delete state.users[i]\<close> on what \<open>loadOnline\<close> returns.\<close>
definition assigned :: "ident \<Rightarrow> json \<Rightarrow> state \<Rightarrow> json option" where
  "assigned i e s = Option.bind (key_of i) (\<lambda>k. users_set k e (loadOnline s))"

text \<open>The properties of an object as \<open>JSON.stringify\<close> writes them.\<close>
definition written :: "(string \<times> json) list \<Rightarrow> (string \<times> json) list" where
  "written ps = map (map_prod id JSON_stringify) ps"

definition deleted :: "ident \<Rightarrow> state \<Rightarrow> json option" where
  "deleted i s = Option.bind (key_of i) (\<lambda>k. users_delete k (loadOnline s))"

text \<open>Every entry of the \<open>users\<close> object is stored under its own \<open>id\<close>.\<close>
definition keyed :: "(string \<times> json) list \<Rightarrow> bool" where
  "keyed ps = list_all (\<lambda>(k, u). member ''id'' u = Some (JStr k)) ps"

text \<open>An identifier that is a string, or one that the test \<open>!myId\<close> rejects.\<close>
definition string_ident :: "ident \<Rightarrow> bool" where
  "string_ident i = (case i of Primitive (JStr t) \<Rightarrow> True | _ \<Rightarrow> \<not> truthy (value_of i))"

text \<open>
  The stored presence list and the registry have the same identifiers, all of them
  strings. The key \<open>__proto__\<close> is set apart: \<open>obj_set\<close> never creates it.
\<close>
definition in_sync :: "state \<Rightarrow> bool" where
  "in_sync s \<longleftrightarrow>
     (\<exists>ps. presence s = Some ps \<and> keyed ps
         \<and> fst ` set ps = {t. str t \<in> fst ` set (sockets s)} - {''__proto__''})
     \<and> (\<forall>i \<in> fst ` set (sockets s). string_ident i \<and> truthy (value_of i))
     \<and> (\<forall>c i. myId (conns s c) = Some i \<longrightarrow> string_ident i)"

text \<open>
  The entry \<open>u\<close> is stored under \<open>x\<close>, as the file had it at first or as
  \<open>JSON.stringify\<close> writes it, and no connection is registered under an identifier
  with the property key \<open>x\<close> or holds one in \<open>myId\<close>.
\<close>
definition file_only :: "string \<Rightarrow> json \<Rightarrow> state \<Rightarrow> bool" where
  "file_only x u s \<longleftrightarrow>
     (\<exists>ps. presence s = Some ps \<and> ((x, u) \<in> set ps \<or> (x, JSON_stringify u) \<in> set ps))
     \<and> (\<forall>i \<in> fst ` set (sockets s). key_of i \<noteq> Some x)
     \<and> (\<forall>c i. myId (conns s c) = Some i \<longrightarrow> key_of i \<noteq> Some x)"

text \<open>Every presence list sent so far has the entry \<open>u\<close>, as \<open>JSON.stringify\<close> writes it.\<close>
definition listed :: "json \<Rightarrow> state \<Rightarrow> bool" where
  "listed u s \<longleftrightarrow> (\<forall>c us. Send c (Online us) \<in> set (outs s) \<longrightarrow> JSON_stringify u \<in> set us)"

subsection \<open>Example states and runs\<close>

definition alice :: json where
  "alice = JObj [(''id'', JStr ''a1''), (''name'', JStr ''Alice''), (''avatar'', JStr ''x'')]"

definition bob :: json where
  "bob = JObj [(''id'', JStr ''b1''), (''name'', JStr ''Bob''), (''avatar'', JStr ''y'')]"

text \<open>The \<open>hello\<close> message with the \<open>me\<close> member \<open>u\<close>.\<close>
definition hello_of :: "json \<Rightarrow> json" where
  "hello_of u = JObj [(''type'', JStr ''hello''), (''me'', u)]"

text \<open>What \<open>loadOnline\<close> returns for a file with the \<open>users\<close> object \<open>ps\<close> and nothing else.\<close>
definition users_file :: "(string \<times> json) list \<Rightarrow> json" where
  "users_file ps = JObj [(''users'', JObj ps)]"

text \<open>A \<open>me\<close> member without \<open>id\<close>.\<close>
definition no_id :: json where
  "no_id = JObj [(''name'', JStr ''Alice''), (''avatar'', JStr ''x'')]"

text \<open>
  The scenario of the specification: two clients connect and register, \<open>a1\<close> on
  \<open>ws\<close> 0 and \<open>b1\<close> on \<open>ws\<close> 1; \<open>two_online\<close> is the state they reach from a start
  without \<open>online.json\<close>, with the record of calls emptied.
\<close>
definition scenario :: "event list" where
  "scenario = [Connection, Message 0 (Some (hello_of alice)),
               Connection, Message 1 (Some (hello_of bob))]"

definition two_online :: state where
  "two_online =
     \<lparr>conns = (\<lambda>_. \<lparr>readyState = CLOSED, isAlive = False, myId = None\<rparr>)
        (0 := \<lparr>readyState = OPEN, isAlive = True, myId = Some (str ''a1'')\<rparr>,
         1 := \<lparr>readyState = OPEN, isAlive = True, myId = Some (str ''b1'')\<rparr>),
      next_ws = 2,
      next_obj = 0,
      sockets = [(str ''a1'', 0), (str ''b1'', 1)],
      state_file = Some (users_file [(''a1'', alice), (''b1'', bob)]),
      disk_ok = True,
      outs = []\<rparr>"

text \<open>The same, when \<open>a1\<close> has not answered the last probe.\<close>
definition silent_a :: state where
  "silent_a =
     two_online\<lparr>conns := (conns two_online)
                   (0 := \<lparr>readyState = OPEN, isAlive = False, myId = Some (str ''a1'')\<rparr>)\<rparr>"

text \<open>The same, when neither has answered and the file cannot be written.\<close>
definition both_silent_disk_full :: state where
  "both_silent_disk_full =
     two_online\<lparr>conns := (\<lambda>_. \<lparr>readyState = CLOSED, isAlive = False, myId = None\<rparr>)
        (0 := \<lparr>readyState = OPEN, isAlive = False, myId = Some (str ''a1'')\<rparr>,
         1 := \<lparr>readyState = OPEN, isAlive = False, myId = Some (str ''b1'')\<rparr>),
       disk_ok := False\<rparr>"


text \<open>\<open>silent_a\<close> when the file cannot be written.\<close>
definition silent_a_disk_full :: state where
  "silent_a_disk_full = silent_a\<lparr>disk_ok := False\<rparr>"



text \<open>One connection registered under two identifiers, by two \<open>hello\<close> messages.\<close>
definition twice_registered :: state where
  "twice_registered =
     \<lparr>conns = (\<lambda>_. \<lparr>readyState = CLOSED, isAlive = False, myId = None\<rparr>)
        (0 := \<lparr>readyState = OPEN, isAlive = True, myId = Some (str ''a2'')\<rparr>),
      next_ws = 1,
      next_obj = 0,
      sockets = [(str ''a1'', 0), (str ''a2'', 0)],
      state_file = Some (users_file
        [(''a1'', alice),
         (''a2'', JObj [(''id'', JStr ''a2''), (''name'', JStr ''Alice''), (''avatar'', JStr ''x'')])]),
      disk_ok = True,
      outs = []\<rparr>"

text \<open>The entry and the \<open>me\<close> member of a second client that calls itself \<open>a1\<close>.\<close>
definition bob_as_a1 :: json where
  "bob_as_a1 = JObj [(''id'', JStr ''a1''), (''name'', JStr ''Bob''), (''avatar'', JStr ''y'')]"

text \<open>
  A second client registers under the identifier \<open>a1\<close> of the first, and the state
  they reach, with the record of calls emptied.
\<close>
definition supersede_run :: "event list" where
  "supersede_run =
     [Connection, Message 0 (Some (hello_of alice)),
      Connection, Message 1 (Some (hello_of bob_as_a1))]"

definition superseded :: state where
  "superseded =
     \<lparr>conns = (\<lambda>_. \<lparr>readyState = CLOSED, isAlive = False, myId = None\<rparr>)
        (0 := \<lparr>readyState = OPEN, isAlive = True, myId = Some (str ''a1'')\<rparr>,
         1 := \<lparr>readyState = OPEN, isAlive = True, myId = Some (str ''a1'')\<rparr>),
      next_ws = 2,
      next_obj = 0,
      sockets = [(str ''a1'', 1)],
      state_file = Some (users_file [(''a1'', bob_as_a1)]),
      disk_ok = True,
      outs = []\<rparr>"

text \<open>\<open>superseded\<close> when the file cannot be written.\<close>
definition superseded_disk_full :: state where
  "superseded_disk_full = superseded\<lparr>disk_ok := False\<rparr>"

text \<open>
  A client registers as \<open>b1\<close>, stays silent through two ticks and is closed; meant for a
  server that starts with an entry for \<open>a1\<close> in \<open>online.json\<close>.
\<close>
definition stale_run :: "event list" where
  "stale_run = [Connection, Message 0 (Some (hello_of bob)), Tick, Tick, Close 0]"

text \<open>Two clients register, one after the other, under the identifier \<open>__proto__\<close>.\<close>
definition proto_run :: "event list" where
  "proto_run =
     [Connection,
      Message 0 (Some (hello_of (JObj [(''id'', JStr ''__proto__''), (''name'', JStr ''A'')]))),
      Connection,
      Message 1 (Some (hello_of (JObj [(''id'', JStr ''__proto__''), (''name'', JStr ''B'')])))]"

text \<open>
  A client registers under the number \<open>5\<close>, a second one under the string \<open>"5"\<close>, and
  the first one closes.
\<close>
definition five_run :: "event list" where
  "five_run =
     [Connection,
      Message 0 (Some (hello_of (JObj [(''id'', JNum (Finite ''5'')), (''name'', JStr ''A'')]))),
      Connection,
      Message 1 (Some (hello_of (JObj [(''id'', JStr ''5''), (''name'', JStr ''B'')]))),
      Close 0]"


text \<open>
  \<open>two_online\<close> when the stored entry of \<open>a1\<close> has a \<open>name\<close> that was read from the
  literal \<open>1e999\<close>, and that entry as \<open>JSON.stringify\<close> writes it.
\<close>
definition big_alice :: json where
  "big_alice = JObj [(''id'', JStr ''a1''), (''name'', JNum PosInfinity)]"

definition null_alice :: json where
  "null_alice = JObj [(''id'', JStr ''a1''), (''name'', JNull)]"


text \<open>A client registers on a server whose \<open>online.json\<close> holds \<open>{"users": []}\<close>.\<close>
definition array_file :: json where
  "array_file = JObj [(''users'', JArr [])]"

definition one_hello :: "event list" where
  "one_hello = [Connection, Message 0 (Some (hello_of alice))]"

text \<open>
  An \<open>offer\<close> for \<open>b1\<close> whose \<open>sdp\<close> member was read from the literal \<open>1e999\<close>, and
  the same with \<open>null\<close> in its place.
\<close>
definition big_offer :: json where
  "big_offer = JObj [(''type'', JStr ''offer''), (''to'', JStr ''b1''), (''sdp'', JNum PosInfinity)]"

definition null_offer :: json where
  "null_offer = JObj [(''type'', JStr ''offer''), (''to'', JStr ''b1''), (''sdp'', JNull)]"

text \<open>An \<open>offer\<close> for \<open>b1\<close> and one for an identifier that nobody has.\<close>
definition offer_b :: json where
  "offer_b = JObj [(''type'', JStr ''offer''), (''to'', JStr ''b1''), (''sdp'', JStr ''v=0'')]"

definition offer_z :: json where
  "offer_z = JObj [(''type'', JStr ''offer''), (''to'', JStr ''zz''), (''sdp'', JStr ''v=0'')]"

section \<open>Facts about the model\<close>

lemma seq_simps [simp]:
  "seq (Returned, s) f = f s"
  "seq (Threw, s) f = (Threw, s)"
  by (simp_all add: seq_def)

lemma loadOnline_simps [simp]:
  "loadOnline (s\<lparr>state_file := Some v\<rparr>) = v"
  "loadOnline (s\<lparr>sockets := ss\<rparr>) = loadOnline s"
  "loadOnline (s\<lparr>conns := cs\<rparr>) = loadOnline s"
  "loadOnline (s\<lparr>outs := os\<rparr>) = loadOnline s"
  "loadOnline (s\<lparr>next_ws := n\<rparr>) = loadOnline s"
  "loadOnline (s\<lparr>next_obj := n\<rparr>) = loadOnline s"
  "loadOnline (s\<lparr>disk_ok := b\<rparr>) = loadOnline s"
  by (simp_all add: loadOnline_def)

lemma presence_simps [simp]:
  "presence (s\<lparr>sockets := ss\<rparr>) = presence s"
  "presence (s\<lparr>conns := cs\<rparr>) = presence s"
  "presence (s\<lparr>outs := os\<rparr>) = presence s"
  "presence (s\<lparr>next_ws := n\<rparr>) = presence s"
  "presence (s\<lparr>next_obj := n\<rparr>) = presence s"
  "presence (s\<lparr>disk_ok := b\<rparr>) = presence s"
  by (simp_all add: presence_def)

lemma presence_load: "loadOnline t = loadOnline s \<Longrightarrow> presence t = presence s"
  by (simp add: presence_def)

text \<open>A state with a stored presence list has a file of the shape the server writes.\<close>
lemma presence_shape:
  "presence s = Some ps \<longleftrightarrow> (\<exists>ms. loadOnline s = JObj ms \<and> map_of ms ''users'' = Some (JObj ps))"
  by (auto simp add: presence_def member_def split: json.splits option.splits)

lemma presence_values:
  "presence s = Some ps \<Longrightarrow> Object_values (loadOnline s) = Some (map snd ps)"
  by (auto simp add: presence_shape Object_values_def)

lemma send_each_closed:
  "send_each p wss s =
     s\<lparr>outs := outs s @ map (\<lambda>ws. Send ws p) (filter (\<lambda>ws. readyState (conns s ws) = OPEN) wss)\<rparr>"
  by (induction wss arbitrary: s) (simp_all add: ws_send_def)

lemma broadcast_closed:
  "broadcastOnline s =
     (case Object_values (loadOnline s) of
        None \<Rightarrow> (Threw, s)
      | Some users \<Rightarrow>
          (Returned,
           s\<lparr>outs := outs s @ map (\<lambda>ws. Send ws (Online (map JSON_stringify users)))
                                (filter (\<lambda>ws. readyState (conns s ws) = OPEN) (map snd (sockets s)))\<rparr>))"
  by (simp add: broadcastOnline_def send_each_closed split: option.splits)

lemma broadcast_fields [simp]:
  "sockets (snd (broadcastOnline s)) = sockets s"
  "state_file (snd (broadcastOnline s)) = state_file s"
  "conns (snd (broadcastOnline s)) = conns s"
  "next_ws (snd (broadcastOnline s)) = next_ws s"
  "next_obj (snd (broadcastOnline s)) = next_obj s"
  "disk_ok (snd (broadcastOnline s)) = disk_ok s"
  "loadOnline (snd (broadcastOnline s)) = loadOnline s"
  "presence (snd (broadcastOnline s)) = presence s"
  by (simp_all add: broadcast_closed presence_def split: option.splits)

lemma broadcast_outs:
  "outs (snd (broadcastOnline s)) =
     outs s @ (case Object_values (loadOnline s) of
                 None \<Rightarrow> []
               | Some users \<Rightarrow> map (\<lambda>ws. Send ws (Online (map JSON_stringify users)))
                     (filter (\<lambda>ws. readyState (conns s ws) = OPEN) (map snd (sockets s))))"
  by (simp add: broadcast_closed split: option.splits)

lemma broadcast_presence:
  "presence s = Some ps \<Longrightarrow>
   broadcastOnline s =
     (Returned,
      s\<lparr>outs := outs s @ map (\<lambda>ws. Send ws (Online (map snd (written ps))))
                          (filter (\<lambda>ws. readyState (conns s ws) = OPEN) (map snd (sockets s)))\<rparr>)"
  by (simp add: broadcast_closed presence_values written_def comp_def)

subsection \<open>What \<open>JSON.stringify\<close> writes\<close>

lemma stringify_idem [simp]: "JSON_stringify (JSON_stringify v) = JSON_stringify v"
  by (induction v) (auto split: number.splits simp: list.pred_set prod.map_comp comp_def)

lemma map_of_map_prod: "map_of (map (map_prod id f) ms) k = map_option f (map_of ms k)"
  by (induction ms) auto

lemma map_of_written: "map_of (written ms) k = map_option JSON_stringify (map_of ms k)"
  by (simp add: written_def map_of_map_prod)

lemma member_stringify: "member k (JSON_stringify v) = map_option JSON_stringify (member k v)"
  by (cases v) (simp_all add: member_def map_of_written [unfolded written_def] split: number.splits)

lemma written_keys [simp]: "fst ` set (written ps) = fst ` set ps"
  by (force simp add: written_def)

lemma written_mem: "(x, u) \<in> set ps \<Longrightarrow> (x, JSON_stringify u) \<in> set (written ps)"
  by (force simp add: written_def)

lemma written_mem_iff: "(x, w) \<in> set (written ps) \<longleftrightarrow> (\<exists>u. (x, u) \<in> set ps \<and> w = JSON_stringify u)"
  by (induction ps) (auto simp add: written_def)

lemma written_idem [simp]: "written (written ps) = written ps"
  by (induction ps) (auto simp add: written_def)

lemma written_values: "map snd (written ps) = map JSON_stringify (map snd ps)"
  by (simp add: written_def comp_def)

lemma keyed_written: "keyed ps \<Longrightarrow> keyed (written ps)"
  by (auto simp add: keyed_def list_all_iff written_def member_stringify)

lemma written_update: "written (AList.update k v ms) = AList.update k (JSON_stringify v) (written ms)"
  by (induction ms) (auto simp add: written_def)

lemma stringify_obj: "JSON_stringify (JObj ms) = JObj (written ms)"
  by (simp add: written_def)

subsection \<open>Assignment and deletion in a file with a \<open>users\<close> object\<close>

lemma users_set_presence:
  assumes "presence s = Some ps"
  shows "\<exists>st. users_set k v (loadOnline s) = Some st
          \<and> member ''users'' (JSON_stringify st) = Some (JObj (written (obj_set k v ps)))"
proof -
  obtain ms where ms: "loadOnline s = JObj ms" "map_of ms ''users'' = Some (JObj ps)"
    using assms by (auto simp add: presence_shape)
  have "member ''users'' (JSON_stringify (JObj (AList.update ''users'' (JObj (obj_set k v ps)) ms)))
          = Some (JObj (written (obj_set k v ps)))"
    by (simp add: member_def map_of_map_prod update_conv' written_def)
  then show ?thesis by (simp add: users_set_def ms)
qed

lemma users_delete_presence:
  assumes "presence s = Some ps"
  shows "\<exists>st. users_delete k (loadOnline s) = Some st
          \<and> member ''users'' (JSON_stringify st) = Some (JObj (written (obj_delete k ps)))"
proof -
  obtain ms where ms: "loadOnline s = JObj ms" "map_of ms ''users'' = Some (JObj ps)"
    using assms by (auto simp add: presence_shape)
  have "member ''users'' (JSON_stringify (JObj (AList.update ''users'' (JObj (obj_delete k ps)) ms)))
          = Some (JObj (written (obj_delete k ps)))"
    by (simp add: member_def map_of_map_prod update_conv' written_def)
  then show ?thesis by (simp add: users_delete_def ms)
qed

lemma presence_saved:
  "member ''users'' w = Some (JObj qs) \<Longrightarrow> presence (s\<lparr>state_file := Some w\<rparr>) = Some qs"
  by (simp add: presence_def)

subsection \<open>The handlers, case by case\<close>

lemma bound_fields [simp]:
  "sockets (bound v ws s) = AList.update (ident_of (next_obj s) v) ws (sockets s)"
  "state_file (bound v ws s) = state_file s"
  "loadOnline (bound v ws s) = loadOnline s"
  "presence (bound v ws s) = presence s"
  "disk_ok (bound v ws s) = disk_ok s"
  "next_ws (bound v ws s) = next_ws s"
  "outs (bound v ws s) = outs s"
  "myId (conns (bound v ws s) c) = (if c = ws then Some (ident_of (next_obj s) v) else myId (conns s c))"
  "readyState (conns (bound v ws s) c) = readyState (conns s c)"
  "isAlive (conns (bound v ws s) c) = isAlive (conns s c)"
  by (simp_all add: bound_def set_myId_def loadOnline_def presence_def)

lemma released_fields [simp]:
  "sockets (released i s) = AList.delete i (sockets s)"
  "state_file (released i s) = state_file s"
  "loadOnline (released i s) = loadOnline s"
  "presence (released i s) = presence s"
  "disk_ok (released i s) = disk_ok s"
  "next_ws (released i s) = next_ws s"
  "next_obj (released i s) = next_obj s"
  "outs (released i s) = outs s"
  "conns (released i s) = conns s"
  by (simp_all add: released_def loadOnline_def presence_def)

lemma set_myId_fields [simp]:
  "sockets (set_myId ws i s) = sockets s"
  "state_file (set_myId ws i s) = state_file s"
  "loadOnline (set_myId ws i s) = loadOnline s"
  "presence (set_myId ws i s) = presence s"
  "disk_ok (set_myId ws i s) = disk_ok s"
  "next_ws (set_myId ws i s) = next_ws s"
  "next_obj (set_myId ws i s) = next_obj s"
  "outs (set_myId ws i s) = outs s"
  "myId (conns (set_myId ws i s) c) = (if c = ws then i else myId (conns s c))"
  "readyState (conns (set_myId ws i s) c) = readyState (conns s c)"
  "isAlive (conns (set_myId ws i s) c) = isAlive (conns s c)"
  by (simp_all add: set_myId_def loadOnline_def presence_def)

lemma set_isAlive_fields [simp]:
  "sockets (set_isAlive ws b s) = sockets s"
  "state_file (set_isAlive ws b s) = state_file s"
  "loadOnline (set_isAlive ws b s) = loadOnline s"
  "presence (set_isAlive ws b s) = presence s"
  "disk_ok (set_isAlive ws b s) = disk_ok s"
  "next_ws (set_isAlive ws b s) = next_ws s"
  "next_obj (set_isAlive ws b s) = next_obj s"
  "outs (set_isAlive ws b s) = outs s"
  "myId (conns (set_isAlive ws b s) c) = myId (conns s c)"
  "readyState (conns (set_isAlive ws b s) c) = readyState (conns s c)"
  "isAlive (conns (set_isAlive ws b s) c) = (if c = ws then b else isAlive (conns s c))"
  by (simp_all add: set_isAlive_def loadOnline_def presence_def)

lemma set_readyState_fields [simp]:
  "sockets (set_readyState ws r s) = sockets s"
  "state_file (set_readyState ws r s) = state_file s"
  "loadOnline (set_readyState ws r s) = loadOnline s"
  "presence (set_readyState ws r s) = presence s"
  "disk_ok (set_readyState ws r s) = disk_ok s"
  "next_ws (set_readyState ws r s) = next_ws s"
  "next_obj (set_readyState ws r s) = next_obj s"
  "outs (set_readyState ws r s) = outs s"
  "myId (conns (set_readyState ws r s) c) = myId (conns s c)"
  "readyState (conns (set_readyState ws r s) c) = (if c = ws then r else readyState (conns s c))"
  "isAlive (conns (set_readyState ws r s) c) = isAlive (conns s c)"
  by (simp_all add: set_readyState_def loadOnline_def presence_def)

lemma on_connection_fields [simp]:
  "sockets (on_connection s) = sockets s"
  "state_file (on_connection s) = state_file s"
  "loadOnline (on_connection s) = loadOnline s"
  "presence (on_connection s) = presence s"
  "disk_ok (on_connection s) = disk_ok s"
  "next_ws (on_connection s) = Suc (next_ws s)"
  "next_obj (on_connection s) = next_obj s"
  "outs (on_connection s) = outs s"
  "myId (conns (on_connection s) c) = (if c = next_ws s then None else myId (conns s c))"
  by (simp_all add: on_connection_def loadOnline_def presence_def)

lemma falsy_primitive: "\<not> truthy v \<Longrightarrow> ident_of a v = Primitive v"
  by (cases v) (simp_all add: truthy_def ident_of_def is_object_def)

lemma value_of_ident [simp]: "value_of (ident_of a v) = v"
  by (simp add: ident_of_def)

text \<open>After an assignment that did not throw, \<open>Object.values\<close> does not throw.\<close>
lemma users_set_values:
  "users_set k v st = Some st' \<Longrightarrow> Object_values (JSON_stringify st') \<noteq> None"
  by (auto simp add: users_set_def Object_values_def map_of_map_prod update_conv'
      split: json.splits option.splits)

lemma assigned_values: "assigned i e s = Some st \<Longrightarrow> Object_values (JSON_stringify st) \<noteq> None"
  by (cases "key_of i") (simp_all add: assigned_def users_set_values)

lemma broadcast_returns:
  "Object_values (loadOnline s) \<noteq> None \<Longrightarrow> fst (broadcastOnline s) = Returned"
  by (auto simp add: broadcast_closed)

lemma hello_cases:
  obtains
    (noid) "hello_id msg = None" "hello ws msg s = (Returned, set_myId ws None s)"
  | (falsy) v where "hello_id msg = Some v" "\<not> truthy v"
      "hello ws msg s = (Returned, set_myId ws (Some (Primitive v)) s)"
  | (threw) v where "hello_id msg = Some v" "truthy v" "hello ws msg s = (Threw, bound v ws s)"
  | (ok) v st where "hello_id msg = Some v" "truthy v" "disk_ok s"
      "assigned (ident_of (next_obj s) v) (entry v msg) s = Some st"
      "hello ws msg s = broadcastOnline ((bound v ws s)\<lparr>state_file := Some (JSON_stringify st)\<rparr>)"
proof (cases "hello_id msg")
  case None
  then show ?thesis using noid by (simp add: hello_def)
next
  case (Some v)
  show ?thesis
  proof (cases "truthy v")
    case False
    then have "\<not> is_object v" by (cases v) (simp_all add: truthy_def is_object_def)
    then show ?thesis using falsy [of v] Some False
      by (simp add: hello_def ident_of_def Let_def)
  next
    case True
    show ?thesis
    proof (cases "assigned (ident_of (next_obj s) v) (entry v msg) s")
      case None
      then show ?thesis using threw [of v] Some True
        by (simp add: hello_def Let_def bound_def assigned_def)
    next
      case st: (Some st)
      show ?thesis
      proof (cases "disk_ok s")
        case False
        then show ?thesis using threw [of v] Some True st
          by (simp add: hello_def Let_def bound_def assigned_def saveOnline_def)
      next
        case d: True
        show ?thesis using ok [of v st] Some True st d
          by (simp add: hello_def Let_def bound_def assigned_def saveOnline_def)
      qed
    qed
  qed
qed

lemma on_close_cases:
  obtains
    (unbound) "myId (conns s ws) = None \<or> (\<exists>i. myId (conns s ws) = Some i \<and> \<not> truthy (value_of i))"
      "on_close ws s = (Returned, s)"
  | (threw) i where "myId (conns s ws) = Some i" "truthy (value_of i)"
      "on_close ws s = (Threw, released i s)"
  | (ok) i st where "myId (conns s ws) = Some i" "truthy (value_of i)" "disk_ok s"
      "deleted i s = Some st"
      "on_close ws s = broadcastOnline ((released i s)\<lparr>state_file := Some (JSON_stringify st)\<rparr>)"
proof (cases "myId (conns s ws)")
  case None
  then show ?thesis using unbound by (simp add: on_close_def)
next
  case (Some i)
  show ?thesis
  proof (cases "truthy (value_of i)")
    case False
    then show ?thesis using unbound Some by (simp add: on_close_def)
  next
    case True
    show ?thesis
    proof (cases "deleted i s")
      case None
      then show ?thesis using threw [of i] Some True
        by (simp add: on_close_def Let_def released_def deleted_def)
    next
      case st: (Some st)
      show ?thesis
      proof (cases "disk_ok s")
        case False
        then show ?thesis using threw [of i] Some True st
          by (simp add: on_close_def Let_def released_def deleted_def saveOnline_def)
      next
        case d: True
        show ?thesis using ok [of i st] Some True st d
          by (simp add: on_close_def Let_def released_def deleted_def saveOnline_def)
      qed
    qed
  qed
qed

lemma relay_cases:
  obtains
    (none) "relay msg s = (Returned, s)"
  | (sent) target where "sockets_get (member ''to'' msg) s = Some target"
      "readyState (conns s target) = OPEN"
      "relay msg s = (Returned, ws_send target (Relay (JSON_stringify msg)) s)"
proof (cases "sockets_get (member ''to'' msg) s")
  case None
  then show ?thesis using none by (simp add: relay_def)
next
  case (Some target)
  show ?thesis
  proof (cases "readyState (conns s target) = OPEN")
    case True
    then show ?thesis using sent [of target] Some by (simp add: relay_def)
  next
    case False
    then show ?thesis using none Some by (simp add: relay_def)
  qed
qed

lemma on_message_cases:
  obtains
    (same) "on_message ws m s = (Returned, s)"
  | (null) "m = Some JNull" "on_message ws m s = (Threw, s)"
  | (hello) msg where "m = Some msg" "member ''type'' msg = Some (JStr ''hello'')"
      "on_message ws m s = hello ws msg s"
  | (relay) msg where "m = Some msg" "on_message ws m s = relay msg s"
  | (pong) "on_message ws m s = (Returned, set_isAlive ws True s)"
proof (cases m)
  case None
  then show ?thesis using same by (simp add: on_message_def)
next
  case (Some msg)
  show ?thesis
  proof (cases "msg = JNull")
    case True
    then show ?thesis using null Some by (simp add: on_message_def)
  next
    case nn: False
    show ?thesis
    proof (cases "member ''type'' msg = Some (JStr ''hello'')")
      case True
      then show ?thesis using hello [of msg] Some nn by (simp add: on_message_def)
    next
      case nh: False
      show ?thesis
      proof (cases "member ''type'' msg = Some (JStr ''offer'')
                \<or> member ''type'' msg = Some (JStr ''answer'')
                \<or> member ''type'' msg = Some (JStr ''ice'')
                \<or> member ''type'' msg = Some (JStr ''end'')")
        case True
        then have "on_message ws m s = relay msg s"
          unfolding on_message_def Some using nn nh by (simp only: option.case if_False if_True)
        then show ?thesis using relay [of msg] Some by simp
      next
        case nr: False
        have "on_message ws m s =
               (if member ''type'' msg = Some (JStr ''pong'')
                then (Returned, set_isAlive ws True s) else (Returned, s))"
          unfolding on_message_def Some using nn nh nr by (simp only: option.case if_False)
        then show ?thesis using pong same by (cases "member ''type'' msg = Some (JStr ''pong'')") simp_all
      qed
    qed
  qed
qed

subsection \<open>The heartbeat loop\<close>

lemma sweep_dead:
  "\<not> isAlive (conns s ws) \<Longrightarrow>
   sweep ((i, ws) # rest) s =
     (case deleted i s of
        None \<Rightarrow> (Threw, evict i ws s)
      | Some st \<Rightarrow>
          if disk_ok s then sweep rest ((evict i ws s)\<lparr>state_file := Some (JSON_stringify st)\<rparr>)
          else (Threw, evict i ws s))"
  by (simp add: evict_def deleted_def saveOnline_def ws_terminate_def Let_def loadOnline_def
      split: option.splits)

lemma sweep_alive:
  "isAlive (conns s ws) \<Longrightarrow> sweep ((i, ws) # rest) s = sweep rest (probe ws s)"
  by (simp add: probe_def)

lemma evict_fields [simp]:
  "sockets (evict i ws s) = AList.delete i (sockets s)"
  "state_file (evict i ws s) = state_file s"
  "loadOnline (evict i ws s) = loadOnline s"
  "presence (evict i ws s) = presence s"
  "disk_ok (evict i ws s) = disk_ok s"
  "next_ws (evict i ws s) = next_ws s"
  "next_obj (evict i ws s) = next_obj s"
  "outs (evict i ws s) = outs s @ [Terminate ws]"
  "isAlive (conns (evict i ws s) c) = isAlive (conns s c)"
  "myId (conns (evict i ws s) c) = myId (conns s c)"
  "readyState (conns (evict i ws s) c) =
     (if c = ws \<and> readyState (conns s ws) \<noteq> CLOSED then CLOSING else readyState (conns s c))"
  by (simp_all add: evict_def ws_terminate_def loadOnline_def presence_def)

lemma probe_fields [simp]:
  "sockets (probe ws s) = sockets s"
  "state_file (probe ws s) = state_file s"
  "loadOnline (probe ws s) = loadOnline s"
  "presence (probe ws s) = presence s"
  "disk_ok (probe ws s) = disk_ok s"
  "next_ws (probe ws s) = next_ws s"
  "next_obj (probe ws s) = next_obj s"
  "outs (probe ws s) = outs s @ [Ping ws]"
  "isAlive (conns (probe ws s) c) = (c \<noteq> ws \<and> isAlive (conns s c))"
  "myId (conns (probe ws s) c) = myId (conns s c)"
  "readyState (conns (probe ws s) c) = readyState (conns s c)"
  by (simp_all add: probe_def ws_ping_def set_isAlive_def loadOnline_def presence_def)

lemmas sweep_unfold = sweep_dead sweep_alive

declare sweep.simps(2) [simp del]

text \<open>A rule for invariants of the loop.\<close>
lemma sweep_rule:
  assumes "Q s"
    and "\<And>i ws s st. Q s \<Longrightarrow> (i, ws) \<in> set ps \<Longrightarrow> \<not> isAlive (conns s ws) \<Longrightarrow> disk_ok s \<Longrightarrow>
           deleted i s = Some st \<Longrightarrow>
           Q ((evict i ws s)\<lparr>state_file := Some (JSON_stringify st)\<rparr>)"
    and "\<And>i ws s. Q s \<Longrightarrow> (i, ws) \<in> set ps \<Longrightarrow> \<not> isAlive (conns s ws) \<Longrightarrow> Q (evict i ws s)"
    and "\<And>i ws s. Q s \<Longrightarrow> (i, ws) \<in> set ps \<Longrightarrow> isAlive (conns s ws) \<Longrightarrow> Q (probe ws s)"
  shows "Q (snd (sweep ps s))"
  using assms
proof (induction ps arbitrary: s)
  case Nil
  then show ?case by simp
next
  case (Cons p ps)
  obtain i ws where p: "p = (i, ws)" by (cases p)
  show ?case
  proof (cases "isAlive (conns s ws)")
    case True
    have "Q (snd (sweep ps (probe ws s)))"
      by (rule Cons.IH) (auto intro: Cons.prems simp: p True)
    then show ?thesis by (simp add: p sweep_alive True)
  next
    case dead: False
    have ev: "Q (evict i ws s)" by (rule Cons.prems(3)) (auto intro: Cons.prems simp: p dead)
    show ?thesis
    proof (cases "deleted i s")
      case None
      then show ?thesis using ev by (simp add: p sweep_dead dead)
    next
      case (Some st)
      show ?thesis
      proof (cases "disk_ok s")
        case True
        have "Q (snd (sweep ps ((evict i ws s)\<lparr>state_file := Some (JSON_stringify st)\<rparr>)))"
          by (rule Cons.IH) (auto intro: Cons.prems simp: p True dead Some)
        then show ?thesis by (simp add: p sweep_dead dead True Some)
      next
        case False
        then show ?thesis using ev by (simp add: p sweep_dead dead Some)
      qed
    qed
  qed
qed

text \<open>The same, for a loop that returned.\<close>
lemma sweep_rule_returned:
  assumes "fst (sweep ps s) = Returned" "Q s"
    and "\<And>i ws s st. Q s \<Longrightarrow> (i, ws) \<in> set ps \<Longrightarrow> \<not> isAlive (conns s ws) \<Longrightarrow> disk_ok s \<Longrightarrow>
           deleted i s = Some st \<Longrightarrow>
           Q ((evict i ws s)\<lparr>state_file := Some (JSON_stringify st)\<rparr>)"
    and "\<And>i ws s. Q s \<Longrightarrow> (i, ws) \<in> set ps \<Longrightarrow> isAlive (conns s ws) \<Longrightarrow> Q (probe ws s)"
  shows "Q (snd (sweep ps s))"
  using assms
proof (induction ps arbitrary: s)
  case Nil
  then show ?case by simp
next
  case (Cons p ps)
  obtain i ws where p: "p = (i, ws)" by (cases p)
  show ?case
  proof (cases "isAlive (conns s ws)")
    case True
    have "Q (snd (sweep ps (probe ws s)))"
      using Cons.prems(1) by (intro Cons.IH) (auto intro: Cons.prems simp: p True sweep_alive)
    then show ?thesis by (simp add: p sweep_alive True)
  next
    case dead: False
    show ?thesis
    proof (cases "deleted i s")
      case None
      then show ?thesis using Cons.prems(1) by (simp add: p sweep_dead dead)
    next
      case (Some st)
      show ?thesis
      proof (cases "disk_ok s")
        case True
        have "Q (snd (sweep ps ((evict i ws s)\<lparr>state_file := Some (JSON_stringify st)\<rparr>)))"
          using Cons.prems(1)
          by (intro Cons.IH) (auto intro: Cons.prems simp: p True dead Some sweep_dead)
        then show ?thesis by (simp add: p sweep_dead dead True Some)
      next
        case False
        then show ?thesis using Cons.prems(1) by (simp add: p sweep_dead dead Some)
      qed
    qed
  qed
qed

subsection \<open>Assignment and deletion in the \<open>users\<close> object\<close>

lemma insert_index_set: "set (insert_index n k v ps) = insert (k, v) (set ps)"
  by (induction ps) (auto split: option.splits if_splits)

lemma update_set_other:
  "(x, u) \<in> set ps \<Longrightarrow> x \<noteq> k \<Longrightarrow> (x, u) \<in> set (AList.update k v ps)"
  by (induction ps) auto

lemma update_values: "(x, u) \<in> set (AList.update k v ps) \<Longrightarrow> (x, u) \<in> set ps \<or> (x, u) = (k, v)"
  by (induction ps) (auto split: if_splits)

lemma obj_set_keys:
  "fst ` set (obj_set k v ps) =
     (if k = ''__proto__'' \<and> k \<notin> fst ` set ps then fst ` set ps else insert k (fst ` set ps))"
proof (cases "map_of ps k")
  case None
  then have "k \<notin> fst ` set ps" by (simp add: map_of_eq_None_iff)
  then show ?thesis using None
    by (simp add: obj_set_def insert_index_set split: option.splits)
next
  case (Some a)
  then have "k \<in> fst ` set ps" using map_of_eq_None_iff [of ps k] by simp
  then show ?thesis using Some dom_update [of k v ps] by (simp add: obj_set_def insert_absorb)
qed

lemma obj_set_keeps_keys: "x \<in> fst ` set ps \<Longrightarrow> x \<in> fst ` set (obj_set k v ps)"
  by (simp add: obj_set_keys)

lemma obj_set_other:
  assumes "(x, u) \<in> set ps" "x \<noteq> k"
  shows "(x, u) \<in> set (obj_set k v ps)"
  using assms
  by (auto simp add: obj_set_def insert_index_set update_set_other split: option.splits)

lemma obj_set_values:
  "(x, u) \<in> set (obj_set k v ps) \<Longrightarrow> (x, u) \<in> set ps \<or> (x, u) = (k, v)"
  by (auto simp add: obj_set_def insert_index_set split: option.splits if_splits dest: update_values)

lemma delete_keys_set: "fst ` set (AList.delete k ps) = fst ` set ps - {k}"
  by (force simp add: AList.delete_eq)

lemma delete_set_other: "(x, u) \<in> set ps \<Longrightarrow> x \<noteq> k \<Longrightarrow> (x, u) \<in> set (AList.delete k ps)"
  by (simp add: AList.delete_eq)

lemma obj_delete_keys: "fst ` set (obj_delete k ps) = fst ` set ps - {k}"
  by (simp add: obj_delete_def delete_keys_set)

lemma obj_delete_other: "(x, u) \<in> set ps \<Longrightarrow> x \<noteq> k \<Longrightarrow> (x, u) \<in> set (obj_delete k ps)"
  by (simp add: obj_delete_def delete_set_other)

lemma keyed_obj_set: "keyed ps \<Longrightarrow> member ''id'' v = Some (JStr k) \<Longrightarrow> keyed (obj_set k v ps)"
  unfolding keyed_def list_all_iff using obj_set_values [of _ _ k v ps] by fastforce

lemma keyed_obj_delete: "keyed ps \<Longrightarrow> keyed (obj_delete k ps)"
  by (auto simp add: keyed_def list_all_iff obj_delete_def AList.delete_eq)

lemma keyed_values: "keyed ps \<Longrightarrow> member ''id'' ` set (map snd ps) = Some ` JStr ` fst ` set ps"
  by (force simp add: keyed_def list_all_iff)

lemma entry_id: "member ''id'' (entry v msg) = Some v"
  by (simp add: entry_def member_def)

subsection \<open>Lookup after an assignment\<close>

lemma insert_index_get: "map_of ps k = None \<Longrightarrow> map_of (insert_index n k v ps) k = Some v"
  by (induction ps) (auto split: option.splits if_splits)

lemma insert_index_distinct:
  "distinct (map fst ps) \<Longrightarrow> k \<notin> fst ` set ps \<Longrightarrow> distinct (map fst (insert_index n k v ps))"
  by (induction ps) (auto simp add: insert_index_set split: option.splits)

lemma obj_set_get:
  assumes "k \<noteq> ''__proto__'' \<or> map_of ps k \<noteq> None"
  shows "map_of (obj_set k v ps) k = Some v"
proof (cases "map_of ps k")
  case None
  then show ?thesis using assms
    by (auto simp add: obj_set_def insert_index_get map_add_def split: option.splits)
next
  case (Some a)
  then show ?thesis by (simp add: obj_set_def update_conv')
qed

lemma obj_set_distinct:
  assumes "distinct (map fst ps)"
  shows "distinct (map fst (obj_set k v ps))"
proof (cases "map_of ps k")
  case None
  then have "k \<notin> fst ` set ps" by (simp add: map_of_eq_None_iff)
  then show ?thesis using assms None
    by (simp add: obj_set_def insert_index_distinct split: option.splits)
next
  case (Some a)
  then show ?thesis using assms by (simp add: obj_set_def distinct_update)
qed

subsection \<open>The file after a handler has written it\<close>

lemma assigned_presence:
  assumes "presence s = Some ps" "key_of i = Some k" "assigned i e s = Some st"
  shows "presence (t\<lparr>state_file := Some (JSON_stringify st)\<rparr>) = Some (written (obj_set k e ps))"
proof -
  obtain st' where "users_set k e (loadOnline s) = Some st'"
    "member ''users'' (JSON_stringify st') = Some (JObj (written (obj_set k e ps)))"
    using users_set_presence [OF assms(1)] by blast
  moreover have "users_set k e (loadOnline s) = Some st"
    using assms(2,3) by (simp add: assigned_def)
  ultimately show ?thesis by (simp add: presence_saved)
qed

lemma deleted_presence:
  assumes "presence s = Some ps" "key_of i = Some k" "deleted i s = Some st"
  shows "presence (t\<lparr>state_file := Some (JSON_stringify st)\<rparr>) = Some (written (obj_delete k ps))"
proof -
  obtain st' where "users_delete k (loadOnline s) = Some st'"
    "member ''users'' (JSON_stringify st') = Some (JObj (written (obj_delete k ps)))"
    using users_delete_presence [OF assms(1)] by blast
  moreover have "users_delete k (loadOnline s) = Some st"
    using assms(2,3) by (simp add: deleted_def)
  ultimately show ?thesis by (simp add: presence_saved)
qed

lemma assigned_key: "assigned i e s = Some st \<Longrightarrow> \<exists>k. key_of i = Some k"
  by (cases "key_of i") (simp_all add: assigned_def)

lemma deleted_key: "deleted i s = Some st \<Longrightarrow> \<exists>k. key_of i = Some k"
  by (cases "key_of i") (simp_all add: deleted_def)


lemma assigned_some:
  "presence s = Some ps \<Longrightarrow> key_of i = Some k \<Longrightarrow> \<exists>st. assigned i e s = Some st"
  using users_set_presence [of s ps k e] by (auto simp add: assigned_def)

lemma string_ident_truthy:
  "string_ident i \<Longrightarrow> truthy (value_of i) \<Longrightarrow> \<exists>t. i = str t \<and> t \<noteq> []"
  by (cases i; cases "value_of i") (auto simp add: string_ident_def truthy_def split: json.splits)

lemma key_of_str [simp]: "key_of (str t) = Some t"
  by (simp add: key_of_def)

lemma key_of_ident [simp]: "key_of (ident_of a v) = ToString v"
  by (simp add: key_of_def)

subsection \<open>Presence list and registry change together\<close>

lemma keys_after_set:
  assumes "ks = {t. str t \<in> K} - {p}"
  shows "(if k = p \<and> k \<notin> ks then ks else insert k ks) = {t. str t \<in> insert (str k) K} - {p}"
  using assms by auto

lemma keys_after_delete:
  assumes "ks = {t. str t \<in> K} - {p}"
  shows "ks - {k} = {t. str t \<in> K - {str k}} - {p}"
  using assms by auto

lemma in_sync_iff:
  assumes "ks = {t. str t \<in> K} - {p}" "x \<noteq> p"
  shows "x \<in> ks \<longleftrightarrow> str x \<in> K"
  using assms by auto

lemma in_syncI:
  assumes "presence s = Some ps" "keyed ps"
    "fst ` set ps = {t. str t \<in> fst ` set (sockets s)} - {''__proto__''}"
    "\<And>i. i \<in> fst ` set (sockets s) \<Longrightarrow> string_ident i \<and> truthy (value_of i)"
    "\<And>c i. myId (conns s c) = Some i \<Longrightarrow> string_ident i"
  shows "in_sync s"
  unfolding in_sync_def
proof (intro conjI ballI allI impI)
  show "\<exists>ps. presence s = Some ps \<and> keyed ps
          \<and> fst ` set ps = {t. str t \<in> fst ` set (sockets s)} - {''__proto__''}"
    by (rule exI [of _ ps]) (intro conjI assms(1,2,3))
  show "string_ident i" if "i \<in> fst ` set (sockets s)" for i
    using assms(4) [OF that] by (rule conjunct1)
  show "truthy (value_of i)" if "i \<in> fst ` set (sockets s)" for i
    using assms(4) [OF that] by (rule conjunct2)
  show "string_ident i" if "myId (conns s c) = Some i" for c i
    using that by (rule assms(5))
qed

lemma in_sync_dest:
  assumes "in_sync s"
  shows "\<exists>ps. presence s = Some ps \<and> keyed ps
          \<and> fst ` set ps = {t. str t \<in> fst ` set (sockets s)} - {''__proto__''}"
  using assms unfolding in_sync_def by (rule conjunct1)

lemma in_sync_reg:
  assumes "in_sync s" "i \<in> fst ` set (sockets s)"
  shows "string_ident i \<and> truthy (value_of i)"
proof -
  from assms(1) have "\<forall>i \<in> fst ` set (sockets s). string_ident i \<and> truthy (value_of i)"
    unfolding in_sync_def by (rule conjunct1 [OF conjunct2])
  then show ?thesis using assms(2) by (rule bspec)
qed

lemma in_sync_conn:
  assumes "in_sync s" "myId (conns s c) = Some i"
  shows "string_ident i"
proof -
  from assms(1) have "\<forall>c i. myId (conns s c) = Some i \<longrightarrow> string_ident i"
    unfolding in_sync_def by (rule conjunct2 [OF conjunct2])
  then have "myId (conns s c) = Some i \<longrightarrow> string_ident i" by (elim allE)
  then show ?thesis using assms(2) by (rule mp)
qed

text \<open>Only the registry, the file and the \<open>myId\<close> variables matter.\<close>
lemma in_sync_cong:
  assumes "in_sync s" "sockets t = sockets s" "loadOnline t = loadOnline s"
    "\<And>c. myId (conns t c) = myId (conns s c)"
  shows "in_sync t"
  using assms(1) unfolding in_sync_def assms(2) presence_load [OF assms(3)] assms(4) .

lemma in_sync_myId:
  assumes "in_sync s" "sockets t = sockets s" "loadOnline t = loadOnline s"
    "\<And>c. myId (conns t c) = (if c = ws then j else myId (conns s c))"
    "\<And>i. j = Some i \<Longrightarrow> string_ident i"
  shows "in_sync t"
proof -
  from in_sync_dest [OF assms(1)] obtain ps where p: "presence s = Some ps \<and> keyed ps
    \<and> fst ` set ps = {t. str t \<in> fst ` set (sockets s)} - {''__proto__''}" ..
  note ps = p [THEN conjunct1] p [THEN conjunct2, THEN conjunct1] p [THEN conjunct2, THEN conjunct2]
    in_sync_reg [OF assms(1)] in_sync_conn [OF assms(1)]
  show ?thesis
  proof (rule in_syncI)
    show "presence t = Some ps" using ps(1) presence_load [OF assms(3)] by simp
    show "keyed ps" by (rule ps(2))
    show "fst ` set ps = {u. str u \<in> fst ` set (sockets t)} - {''__proto__''}"
      unfolding assms(2) by (rule ps(3))
    show "string_ident i \<and> truthy (value_of i)" if "i \<in> fst ` set (sockets t)" for i
      using that ps(4) unfolding assms(2) by blast
    show "string_ident i" if "myId (conns t c) = Some i" for c i
      using that ps(5) [of c i] assms(5) [of i] unfolding assms(4) by (cases "c = ws") simp_all
  qed
qed

text \<open>A registration that returned.\<close>
lemma in_sync_bound:
  assumes "in_sync s" "t \<noteq> []" "assigned (str t) e s = Some st" "member ''id'' e = Some (JStr t)"
    "sockets s' = AList.update (str t) ws (sockets s)"
    "loadOnline s' = JSON_stringify st"
    "\<And>c. myId (conns s' c) = (if c = ws then Some (str t) else myId (conns s c))"
  shows "in_sync s'"
proof -
  from in_sync_dest [OF assms(1)] obtain ps where p: "presence s = Some ps \<and> keyed ps
    \<and> fst ` set ps = {t. str t \<in> fst ` set (sockets s)} - {''__proto__''}" ..
  note ps = p [THEN conjunct1] p [THEN conjunct2, THEN conjunct1] p [THEN conjunct2, THEN conjunct2]
    in_sync_reg [OF assms(1)] in_sync_conn [OF assms(1)]
  have "presence (s'\<lparr>state_file := Some (JSON_stringify st)\<rparr>) = Some (written (obj_set t e ps))"
    using ps(1) _ assms(3) by (rule assigned_presence) simp
  moreover have "loadOnline s' = loadOnline (s'\<lparr>state_file := Some (JSON_stringify st)\<rparr>)"
    using assms(6) by simp
  ultimately have pr: "presence s' = Some (written (obj_set t e ps))"
    using presence_load [of s' "s'\<lparr>state_file := Some (JSON_stringify st)\<rparr>"] by simp
  have reg: "fst ` set (sockets s') = insert (str t) (fst ` set (sockets s))"
    unfolding assms(5) by (simp add: dom_update)
  show ?thesis
  proof (rule in_syncI)
    show "presence s' = Some (written (obj_set t e ps))" by (rule pr)
    show "keyed (written (obj_set t e ps))"
      by (intro keyed_written keyed_obj_set ps(2) assms(4))
    show "fst ` set (written (obj_set t e ps)) = {u. str u \<in> fst ` set (sockets s')} - {''__proto__''}"
      unfolding written_keys obj_set_keys reg using ps(3) by (rule keys_after_set)
    show "string_ident i \<and> truthy (value_of i)" if "i \<in> fst ` set (sockets s')" for i
    proof (cases "i = str t")
      case True
      then show ?thesis using assms(2) by (simp add: string_ident_def truthy_def)
    next
      case False
      then show ?thesis using that ps(4) [of i] unfolding reg by simp
    qed
    show "string_ident i" if "myId (conns s' c) = Some i" for c i
      using that ps(5) [of c i] unfolding assms(7)
      by (cases "c = ws") (auto simp add: string_ident_def)
  qed
qed

text \<open>A release that returned.\<close>
lemma in_sync_released:
  assumes "in_sync s" "deleted (str t) s = Some st"
    "sockets s' = AList.delete (str t) (sockets s)"
    "loadOnline s' = JSON_stringify st"
    "\<And>c. myId (conns s' c) = myId (conns s c)"
  shows "in_sync s'"
proof -
  from in_sync_dest [OF assms(1)] obtain ps where p: "presence s = Some ps \<and> keyed ps
    \<and> fst ` set ps = {t. str t \<in> fst ` set (sockets s)} - {''__proto__''}" ..
  note ps = p [THEN conjunct1] p [THEN conjunct2, THEN conjunct1] p [THEN conjunct2, THEN conjunct2]
    in_sync_reg [OF assms(1)] in_sync_conn [OF assms(1)]
  have "presence (s'\<lparr>state_file := Some (JSON_stringify st)\<rparr>) = Some (written (obj_delete t ps))"
    using ps(1) _ assms(2) by (rule deleted_presence) simp
  moreover have "loadOnline s' = loadOnline (s'\<lparr>state_file := Some (JSON_stringify st)\<rparr>)"
    using assms(4) by simp
  ultimately have pr: "presence s' = Some (written (obj_delete t ps))"
    using presence_load [of s' "s'\<lparr>state_file := Some (JSON_stringify st)\<rparr>"] by simp
  have reg: "fst ` set (sockets s') = fst ` set (sockets s) - {str t}"
    unfolding assms(3) by (rule delete_keys_set)
  show ?thesis
  proof (rule in_syncI)
    show "presence s' = Some (written (obj_delete t ps))" by (rule pr)
    show "keyed (written (obj_delete t ps))"
      by (intro keyed_written keyed_obj_delete ps(2))
    show "fst ` set (written (obj_delete t ps)) = {u. str u \<in> fst ` set (sockets s')} - {''__proto__''}"
      unfolding written_keys obj_delete_keys reg using ps(3) by (rule keys_after_delete)
    show "string_ident i \<and> truthy (value_of i)" if "i \<in> fst ` set (sockets s')" for i
      using that ps(4) [of i] unfolding reg by simp
    show "string_ident i" if "myId (conns s' c) = Some i" for c i
      using that ps(5) [of c i] unfolding assms(5) by simp
  qed
qed

lemma in_sync_returns:
  assumes "in_sync s"
  shows "fst (broadcastOnline s) = Returned"
proof -
  from in_sync_dest [OF assms] obtain ps where p: "presence s = Some ps \<and> keyed ps
    \<and> fst ` set ps = {t. str t \<in> fst ` set (sockets s)} - {''__proto__''}" ..
  then have "presence s = Some ps" by (rule conjunct1)
  then show ?thesis by (simp add: broadcast_presence)
qed

lemma in_sync_broadcast: "in_sync s \<Longrightarrow> in_sync (snd (broadcastOnline s))"
  by (rule in_sync_cong) simp_all

lemma hello_sync:
  assumes "in_sync s" "string_id (Message ws (Some msg))"
    "member ''type'' msg = Some (JStr ''hello'')" "fst (hello ws msg s) = Returned"
  shows "in_sync (snd (hello ws msg s))"
proof (cases rule: hello_cases [of msg ws s])
  case noid
  show ?thesis unfolding noid(2) snd_conv
    by (rule in_sync_myId [OF assms(1), where ws = ws and j = None]) simp_all
next
  case (falsy v)
  show ?thesis unfolding falsy(3) snd_conv
    by (rule in_sync_myId [OF assms(1), where ws = ws and j = "Some (Primitive v)"])
       (use falsy(2) in \<open>auto simp add: string_ident_def split: json.splits\<close>)
next
  case (threw v)
  then show ?thesis using assms(4) by simp
next
  case (ok v st)
  obtain t where t: "v = JStr t" "t \<noteq> []"
    using assms(2,3) ok(1,2) by (cases v) (auto simp add: string_id_def truthy_def)
  have i: "ident_of (next_obj s) v = str t" by (simp add: t ident_of_def is_object_def)
  let ?s1 = "(bound v ws s)\<lparr>state_file := Some (JSON_stringify st)\<rparr>"
  have "in_sync ?s1"
  proof (rule in_sync_bound [OF assms(1) t(2), where e = "entry v msg" and st = st and ws = ws])
    show "assigned (str t) (entry v msg) s = Some st" using ok(4) unfolding i .
    show "member ''id'' (entry v msg) = Some (JStr t)" by (simp add: entry_id t)
    show "sockets ?s1 = AList.update (str t) ws (sockets s)" by (simp add: i)
    show "loadOnline ?s1 = JSON_stringify st" by simp
    show "myId (conns ?s1 c) = (if c = ws then Some (str t) else myId (conns s c))" for c
      by (simp add: i)
  qed
  then show ?thesis unfolding ok(5) by (rule in_sync_broadcast)
qed

lemma on_message_sync:
  assumes "in_sync s" "string_id (Message ws m)" "fst (on_message ws m s) = Returned"
  shows "in_sync (snd (on_message ws m s))"
proof (cases rule: on_message_cases [of ws m s])
  case same
  then show ?thesis using assms(1) by simp
next
  case null
  then show ?thesis using assms(3) by simp
next
  case (hello msg)
  show ?thesis unfolding hello(3)
    by (rule hello_sync [OF assms(1) assms(2) [unfolded hello(1)] hello(2)
          assms(3) [unfolded hello(3)]])
next
  case (relay msg)
  show ?thesis
  proof (cases rule: relay_cases [of msg s])
    case none
    then show ?thesis using assms(1) relay by simp
  next
    case (sent target)
    show ?thesis unfolding relay(2) sent(3) snd_conv
      by (rule in_sync_cong [OF assms(1)]) (simp_all add: ws_send_def loadOnline_def)
  qed
next
  case pong
  show ?thesis unfolding pong snd_conv
    by (rule in_sync_cong [OF assms(1)]) simp_all
qed

lemma on_close_sync:
  assumes "in_sync s" "fst (on_close ws s) = Returned"
  shows "in_sync (snd (on_close ws s))"
proof (cases rule: on_close_cases [of s ws])
  case unbound
  then show ?thesis using assms(1) by simp
next
  case (threw i)
  then show ?thesis using assms(2) by simp
next
  case (ok i st)
  have "string_ident i" using assms(1) ok(1) by (rule in_sync_conn)
  then obtain t where t: "i = str t" using ok(2) string_ident_truthy by blast
  let ?s1 = "(released i s)\<lparr>state_file := Some (JSON_stringify st)\<rparr>"
  have "in_sync ?s1"
    by (rule in_sync_released [OF assms(1), where t = t and st = st])
       (use ok(4) t in simp_all)
  then show ?thesis unfolding ok(5) by (rule in_sync_broadcast)
qed

lemma sweep_sync:
  assumes "fst (sweep ps s) = Returned" "in_sync s"
    "\<And>i ws. (i, ws) \<in> set ps \<Longrightarrow> string_ident i \<and> truthy (value_of i)"
  shows "in_sync (snd (sweep ps s))"
  using assms(1,2)
proof (rule sweep_rule_returned)
  fix i ws s st
  assume a: "in_sync s" "(i, ws) \<in> set ps" "deleted i s = Some st"
  obtain t where t: "i = str t" using assms(3) [OF a(2)] string_ident_truthy by blast
  show "in_sync ((evict i ws s)\<lparr>state_file := Some (JSON_stringify st)\<rparr>)"
    by (rule in_sync_released [OF a(1), where t = t and st = st]) (use a(3) t in simp_all)
next
  fix i ws s
  assume "in_sync s"
  then show "in_sync (probe ws s)" by (rule in_sync_cong) simp_all
qed

lemma heartbeat_sync:
  assumes "in_sync s" "fst (heartbeat s) = Returned"
  shows "in_sync (snd (heartbeat s))"
proof -
  have r: "fst (sweep (sockets s) s) = Returned"
    using assms(2) by (cases "sweep (sockets s) s"; cases "fst (sweep (sockets s) s)")
      (auto simp add: heartbeat_def seq_def)
  have "in_sync (snd (sweep (sockets s) s))" using r assms(1)
  proof (rule sweep_sync)
    fix i ws assume "(i, ws) \<in> set (sockets s)"
    then have "i \<in> fst ` set (sockets s)" by force
    with assms(1) show "string_ident i \<and> truthy (value_of i)" by (rule in_sync_reg)
  qed
  then have "in_sync (snd (broadcastOnline (snd (sweep (sockets s) s))))"
    by (rule in_sync_broadcast)
  then show ?thesis using r by (simp add: heartbeat_def seq_def)
qed

lemma step_sync:
  assumes "in_sync s" "string_id e" "fst (step e s) = Returned"
  shows "in_sync (snd (step e s))"
proof (cases e)
  case Connection
  show ?thesis unfolding Connection step.simps snd_conv
    by (rule in_sync_myId [OF assms(1), where ws = "next_ws s" and j = None]) simp_all
next
  case (Message ws m)
  show ?thesis
  proof (cases "ws < next_ws s")
    case True
    then show ?thesis using on_message_sync [of s ws m] assms unfolding Message by simp
  next
    case False
    then show ?thesis using assms(1) unfolding Message by simp
  qed
next
  case (PongFrame ws)
  have "in_sync (on_pong ws s)" unfolding on_pong_def
    by (rule in_sync_cong [OF assms(1)]) simp_all
  then show ?thesis using assms(1) unfolding PongFrame by simp
next
  case (Closing ws)
  have "in_sync (set_readyState ws CLOSING s)"
    by (rule in_sync_cong [OF assms(1)]) simp_all
  then show ?thesis using assms(1) unfolding Closing by simp
next
  case (Close ws)
  have c: "in_sync (set_readyState ws CLOSED s)"
    by (rule in_sync_cong [OF assms(1)]) simp_all
  show ?thesis
  proof (cases "ws < next_ws s")
    case True
    then show ?thesis using on_close_sync [OF c, of ws] assms(3) unfolding Close by simp
  next
    case False
    then show ?thesis using assms(1) unfolding Close by simp
  qed
next
  case Tick
  then show ?thesis using heartbeat_sync [OF assms(1)] assms(3) by simp
next
  case (Disk b)
  have "in_sync (s\<lparr>disk_ok := b\<rparr>)" by (rule in_sync_cong [OF assms(1)]) simp_all
  then show ?thesis unfolding Disk by simp
qed

lemma run_sync:
  assumes "run es s = (Returned, s')" "in_sync s" "\<forall>e \<in> set es. string_id e"
  shows "in_sync s'"
  using assms
proof (induction es arbitrary: s)
  case Nil
  then show ?case by simp
next
  case (Cons e es)
  have r: "fst (step e s) = Returned"
    using Cons.prems(1) by (cases "step e s"; cases "fst (step e s)") (auto simp add: seq_def)
  then have "run es (snd (step e s)) = (Returned, s')"
    using Cons.prems(1) by (simp add: seq_def)
  moreover have "in_sync (snd (step e s))"
    using Cons.prems(2) _ r by (rule step_sync) (use Cons.prems(3) in simp)
  ultimately show ?case using Cons.IH Cons.prems(3) by simp
qed

lemma init_sync: "presence (init f d) = Some [] \<Longrightarrow> in_sync (init f d)"
  by (rule in_syncI [where ps = "[]"]) (simp_all add: keyed_def init_def)

subsection \<open>What a broadcast lists\<close>

lemma new_outs_append: "outs s' = outs s @ xs \<Longrightarrow> new_outs s s' = xs"
  by (simp add: new_outs_def)

lemma new_outs_same [simp]: "new_outs s s = []"
  by (simp add: new_outs_def)

lemma http_online_load: "loadOnline t = loadOnline s \<Longrightarrow> http_online t = http_online s"
  by (simp add: http_online_def)

lemma sweep_outs:
  "\<exists>new. outs (snd (sweep ps s)) = outs s @ new \<and> (\<forall>e \<in> set new. \<exists>w. e = Ping w \<or> e = Terminate w)"
  by (rule sweep_rule [where Q = "\<lambda>t. \<exists>new. outs t = outs s @ new \<and> (\<forall>e \<in> set new. \<exists>w. e = Ping w \<or> e = Terminate w)"])
     auto

text \<open>
  A handler broadcasts last, and a broadcast lists what the file holds then, which
  is what the \<open>/online\<close> route answers in the state the handler leaves.
\<close>
lemma broadcast_payload:
  assumes "outs t = outs s @ xs" "\<And>c us. Send c (Online us) \<notin> set xs"
    "Send c (Online us) \<in> set (new_outs s (snd (broadcastOnline t)))"
  shows "http_online (snd (broadcastOnline t)) = Some us"
proof (cases "Object_values (loadOnline t)")
  case None
  then have "new_outs s (snd (broadcastOnline t)) = xs"
    using assms(1) by (simp add: broadcast_closed new_outs_def)
  then show ?thesis using assms(2,3) by simp
next
  case (Some users)
  have "new_outs s (snd (broadcastOnline t)) =
          xs @ map (\<lambda>ws. Send ws (Online (map JSON_stringify users)))
                 (filter (\<lambda>ws. readyState (conns t ws) = OPEN) (map snd (sockets t)))"
    by (rule new_outs_append) (simp add: broadcast_outs Some assms(1))
  then have "us = map JSON_stringify users" using assms(2,3) by auto
  then show ?thesis by (simp add: http_online_def Some)
qed

lemma hello_payload:
  assumes "Send c (Online us) \<in> set (new_outs s (snd (hello ws msg s)))"
  shows "http_online (snd (hello ws msg s)) = Some us"
proof (cases rule: hello_cases [of msg ws s])
  case noid
  then show ?thesis using assms by (simp add: new_outs_def)
next
  case (falsy v)
  then show ?thesis using assms by (simp add: new_outs_def)
next
  case (threw v)
  then show ?thesis using assms by (simp add: new_outs_def)
next
  case (ok v st)
  show ?thesis unfolding ok(5)
    by (rule broadcast_payload [where s = s and xs = "[]" and c = c])
       (use assms in \<open>simp_all add: ok(5)\<close>)
qed

lemma on_message_payload:
  assumes "Send c (Online us) \<in> set (new_outs s (snd (on_message ws m s)))"
  shows "http_online (snd (on_message ws m s)) = Some us"
proof (cases rule: on_message_cases [of ws m s])
  case same
  then show ?thesis using assms by simp
next
  case null
  then show ?thesis using assms by simp
next
  case (hello msg)
  then show ?thesis using assms hello_payload [of c us s ws msg] by simp
next
  case (relay msg)
  show ?thesis
  proof (cases rule: relay_cases [of msg s])
    case none
    then show ?thesis using assms relay by simp
  next
    case (sent target)
    then show ?thesis using assms relay by (simp add: new_outs_def ws_send_def)
  qed
next
  case pong
  then show ?thesis using assms by (simp add: new_outs_def)
qed

lemma on_close_payload:
  assumes "Send c (Online us) \<in> set (new_outs s (snd (on_close ws s)))"
  shows "http_online (snd (on_close ws s)) = Some us"
proof (cases rule: on_close_cases [of s ws])
  case unbound
  then show ?thesis using assms by simp
next
  case (threw i)
  then show ?thesis using assms by (simp add: new_outs_def)
next
  case (ok i st)
  show ?thesis unfolding ok(5)
    by (rule broadcast_payload [where s = s and xs = "[]" and c = c])
       (use assms in \<open>simp_all add: ok(5)\<close>)
qed

lemma heartbeat_payload:
  assumes "Send c (Online us) \<in> set (new_outs s (snd (heartbeat s)))"
  shows "http_online (snd (heartbeat s)) = Some us"
proof -
  obtain new where new: "outs (snd (sweep (sockets s) s)) = outs s @ new"
    "\<forall>e \<in> set new. \<exists>w. e = Ping w \<or> e = Terminate w"
    using sweep_outs [of "sockets s" s] by blast
  have no: "Send c us \<notin> set new" for c us using new(2) by auto
  show ?thesis
  proof (cases "fst (sweep (sockets s) s)")
    case Returned
    then have h: "heartbeat s = broadcastOnline (snd (sweep (sockets s) s))"
      by (simp add: heartbeat_def seq_def)
    show ?thesis unfolding h
      by (rule broadcast_payload [OF new(1), where c = c]) (use no assms h in simp_all)
  next
    case Threw
    then have "snd (heartbeat s) = snd (sweep (sockets s) s)"
      by (simp add: heartbeat_def seq_def)
    then have "new_outs s (snd (heartbeat s)) = new"
      using new(1) by (simp add: new_outs_def)
    then show ?thesis using assms no by simp
  qed
qed

lemma step_payload:
  assumes "Send c (Online us) \<in> set (new_outs s (snd (step e s)))"
  shows "http_online (snd (step e s)) = Some us"
proof (cases e)
  case Connection
  then show ?thesis using assms by (simp add: new_outs_def)
next
  case (Message ws m)
  then show ?thesis using assms on_message_payload [of c us s ws m]
    by (cases "ws < next_ws s") simp_all
next
  case (PongFrame ws)
  then show ?thesis using assms by (cases "ws < next_ws s") (simp_all add: new_outs_def on_pong_def)
next
  case (Closing ws)
  then show ?thesis using assms
    by (cases "ws < next_ws s \<and> readyState (conns s ws) = OPEN") (simp_all add: new_outs_def)
next
  case (Close ws)
  show ?thesis
  proof (cases "ws < next_ws s")
    case True
    have "new_outs s (snd (on_close ws (set_readyState ws CLOSED s)))
            = new_outs (set_readyState ws CLOSED s) (snd (on_close ws (set_readyState ws CLOSED s)))"
      by (simp add: new_outs_def)
    then show ?thesis
      using assms on_close_payload [of c us "set_readyState ws CLOSED s" ws] True
      unfolding Close by simp
  next
    case False
    then show ?thesis using assms unfolding Close by simp
  qed
next
  case Tick
  then show ?thesis using assms heartbeat_payload [of c us s] by simp
next
  case (Disk b)
  then show ?thesis using assms by (simp add: new_outs_def)
qed

subsection \<open>The record of calls only grows\<close>

lemma broadcast_grows: "\<exists>new. outs (snd (broadcastOnline s)) = outs s @ new"
  by (simp add: broadcast_outs)

lemma hello_grows: "\<exists>new. outs (snd (hello ws msg s)) = outs s @ new"
  by (cases rule: hello_cases [of msg ws s]) (simp_all add: broadcast_outs)

lemma on_message_grows: "\<exists>new. outs (snd (on_message ws m s)) = outs s @ new"
proof (cases rule: on_message_cases [of ws m s])
  case (hello msg)
  then show ?thesis using hello_grows [of ws msg s] by simp
next
  case (relay msg)
  then show ?thesis by (cases rule: relay_cases [of msg s]) (simp_all add: ws_send_def)
qed simp_all

lemma on_close_grows: "\<exists>new. outs (snd (on_close ws s)) = outs s @ new"
  by (cases rule: on_close_cases [of s ws]) (simp_all add: broadcast_outs)

lemma heartbeat_grows: "\<exists>new. outs (snd (heartbeat s)) = outs s @ new"
proof -
  obtain new where new: "outs (snd (sweep (sockets s) s)) = outs s @ new"
    using sweep_outs [of "sockets s" s] by blast
  show ?thesis
    by (cases "fst (sweep (sockets s) s)") (simp_all add: heartbeat_def seq_def new broadcast_outs)
qed

lemma step_grows: "\<exists>new. outs (snd (step e s)) = outs s @ new"
proof (cases e)
  case (Message ws m)
  then show ?thesis using on_message_grows [of ws m s] by (cases "ws < next_ws s") simp_all
next
  case (PongFrame ws)
  then show ?thesis by (cases "ws < next_ws s") (simp_all add: on_pong_def)
next
  case (Closing ws)
  then show ?thesis by (cases "ws < next_ws s \<and> readyState (conns s ws) = OPEN") simp_all
next
  case (Close ws)
  then show ?thesis using on_close_grows [of ws "set_readyState ws CLOSED s"]
    by (cases "ws < next_ws s") simp_all
next
  case Tick
  then show ?thesis using heartbeat_grows [of s] by simp
qed simp_all

lemma step_sent:
  assumes "e' \<in> set (outs (snd (step e s)))"
  shows "e' \<in> set (outs s) \<or> e' \<in> set (new_outs s (snd (step e s)))"
proof -
  obtain new where "outs (snd (step e s)) = outs s @ new" using step_grows by blast
  then show ?thesis using assms by (auto simp add: new_outs_def)
qed

subsection \<open>Entries without a connection\<close>

lemma file_only_cong:
  assumes "file_only x u s" "sockets t = sockets s" "loadOnline t = loadOnline s"
    "\<And>c. myId (conns t c) = myId (conns s c)"
  shows "file_only x u t"
  using assms(1) unfolding file_only_def assms(2) presence_load [OF assms(3)] assms(4) .

lemma file_only_myId:
  assumes "file_only x u s" "sockets t = sockets s" "loadOnline t = loadOnline s"
    "\<And>c. myId (conns t c) = (if c = ws then j else myId (conns s c))"
    "\<And>i. j = Some i \<Longrightarrow> key_of i \<noteq> Some x"
  shows "file_only x u t"
  using assms(1,5) unfolding file_only_def assms(2) presence_load [OF assms(3)] assms(4)
  by auto

lemma file_only_reg: "file_only x u s \<Longrightarrow> i \<in> fst ` set (sockets s) \<Longrightarrow> key_of i \<noteq> Some x"
  unfolding file_only_def by blast

lemma file_only_conn: "file_only x u s \<Longrightarrow> myId (conns s c) = Some i \<Longrightarrow> key_of i \<noteq> Some x"
  unfolding file_only_def by blast

lemma file_only_entry:
  "file_only x u s \<Longrightarrow>
   \<exists>ps. presence s = Some ps \<and> ((x, u) \<in> set ps \<or> (x, JSON_stringify u) \<in> set ps)"
  unfolding file_only_def by blast

lemma file_onlyI:
  assumes "\<exists>ps. presence t = Some ps \<and> ((x, u) \<in> set ps \<or> (x, JSON_stringify u) \<in> set ps)"
    "\<And>i. i \<in> fst ` set (sockets t) \<Longrightarrow> key_of i \<noteq> Some x"
    "\<And>c i. myId (conns t c) = Some i \<Longrightarrow> key_of i \<noteq> Some x"
  shows "file_only x u t"
  unfolding file_only_def using assms by blast

lemma file_only_registry:
  assumes "file_only x u s" "fst ` set (sockets t) \<subseteq> insert i (fst ` set (sockets s))"
    "key_of i \<noteq> Some x" "loadOnline t = loadOnline s"
    "\<And>c. myId (conns t c) = (if c = ws then j else myId (conns s c))"
    "\<And>i. j = Some i \<Longrightarrow> key_of i \<noteq> Some x"
  shows "file_only x u t"
proof (rule file_onlyI)
  show "\<exists>ps. presence t = Some ps \<and> ((x, u) \<in> set ps \<or> (x, JSON_stringify u) \<in> set ps)"
    using file_only_entry [OF assms(1)] unfolding presence_load [OF assms(4)] .
  show "key_of i' \<noteq> Some x" if "i' \<in> fst ` set (sockets t)" for i'
    using that assms(2,3) file_only_reg [OF assms(1), of i'] by blast
  show "key_of i' \<noteq> Some x" if "myId (conns t c) = Some i'" for c i'
    using that assms(6) [of i'] file_only_conn [OF assms(1), of c i'] unfolding assms(5)
    by (cases "c = ws") simp_all
qed

text \<open>A write after an assignment or a deletion under another key.\<close>
lemma file_only_written:
  assumes "file_only x u s" "presence s = Some ps" "presence t = Some (written qs)"
    "\<And>u'. (x, u') \<in> set ps \<Longrightarrow> (x, u') \<in> set qs"
    "fst ` set (sockets t) \<subseteq> insert i (fst ` set (sockets s))" "key_of i \<noteq> Some x"
    "\<And>c. myId (conns t c) = (if c = ws then j else myId (conns s c))"
    "\<And>i. j = Some i \<Longrightarrow> key_of i \<noteq> Some x"
  shows "file_only x u t"
proof (rule file_onlyI)
  have "(x, u) \<in> set ps \<or> (x, JSON_stringify u) \<in> set ps"
    using file_only_entry [OF assms(1)] assms(2) by auto
  then have "(x, u) \<in> set qs \<or> (x, JSON_stringify u) \<in> set qs"
    using assms(4) by blast
  then have "(x, JSON_stringify u) \<in> set (written qs)"
    using written_mem [of x u qs] written_mem [of x "JSON_stringify u" qs] by auto
  then show "\<exists>ps'. presence t = Some ps' \<and> ((x, u) \<in> set ps' \<or> (x, JSON_stringify u) \<in> set ps')"
    using assms(3) by blast
  show "key_of i' \<noteq> Some x" if "i' \<in> fst ` set (sockets t)" for i'
    using that assms(5,6) file_only_reg [OF assms(1), of i'] by blast
  show "key_of i' \<noteq> Some x" if "myId (conns t c) = Some i'" for c i'
    using that assms(8) [of i'] file_only_conn [OF assms(1), of c i'] unfolding assms(7)
    by (cases "c = ws") simp_all
qed

lemma file_only_presence: "file_only x u s \<Longrightarrow> \<exists>ps. presence s = Some ps"
  unfolding file_only_def by blast

lemma file_only_broadcast: "file_only x u s \<Longrightarrow> file_only x u (snd (broadcastOnline s))"
  by (rule file_only_cong) simp_all

lemma hello_file_only:
  assumes "file_only x u s" "\<not> binds x (Message ws (Some msg))"
    "member ''type'' msg = Some (JStr ''hello'')"
  shows "file_only x u (snd (hello ws msg s))"
proof -
  have nb: "ToString v \<noteq> Some x" if "hello_id msg = Some v" for v
    using assms(2,3) that by (simp add: binds_def)
  obtain ps where ps: "presence s = Some ps" using file_only_presence [OF assms(1)] by blast
  show ?thesis
  proof (cases rule: hello_cases [of msg ws s])
    case noid
    show ?thesis unfolding noid(2) snd_conv
      by (rule file_only_myId [OF assms(1), where ws = ws and j = None]) simp_all
  next
    case (falsy v)
    show ?thesis unfolding falsy(3) snd_conv
      by (rule file_only_myId [OF assms(1), where ws = ws and j = "Some (Primitive v)"])
         (use nb [OF falsy(1)] in \<open>simp_all add: key_of_def\<close>)
  next
    case (threw v)
    show ?thesis unfolding threw(3) snd_conv
      by (rule file_only_registry [OF assms(1), where ws = ws
            and i = "ident_of (next_obj s) v" and j = "Some (ident_of (next_obj s) v)"])
         (use nb [OF threw(1)] in \<open>auto simp add: dom_update\<close>)
  next
    case (ok v st)
    obtain k where k: "key_of (ident_of (next_obj s) v) = Some k"
      using assigned_key [OF ok(4)] by blast
    then have kx: "k \<noteq> x" using nb [OF ok(1)] by simp
    let ?t = "(bound v ws s)\<lparr>state_file := Some (JSON_stringify st)\<rparr>"
    have "file_only x u ?t"
    proof (rule file_only_written [OF assms(1) ps, where ws = ws
            and i = "ident_of (next_obj s) v" and j = "Some (ident_of (next_obj s) v)"
            and qs = "obj_set k (entry v msg) ps"])
      show "presence ?t = Some (written (obj_set k (entry v msg) ps))"
        using ps k ok(4) by (rule assigned_presence)
      show "(x, u') \<in> set (obj_set k (entry v msg) ps)" if "(x, u') \<in> set ps" for u'
        using that kx by (intro obj_set_other) simp_all
    qed (use nb [OF ok(1)] in \<open>auto simp add: dom_update\<close>)
    then show ?thesis unfolding ok(5) by (rule file_only_broadcast)
  qed
qed

lemma on_message_file_only:
  assumes "file_only x u s" "\<not> binds x (Message ws m)"
  shows "file_only x u (snd (on_message ws m s))"
proof (cases rule: on_message_cases [of ws m s])
  case same
  then show ?thesis using assms(1) by simp
next
  case null
  then show ?thesis using assms(1) by simp
next
  case (hello msg)
  show ?thesis unfolding hello(3)
    by (rule hello_file_only [OF assms(1) assms(2) [unfolded hello(1)] hello(2)])
next
  case (relay msg)
  show ?thesis
  proof (cases rule: relay_cases [of msg s])
    case none
    then show ?thesis using assms(1) relay by simp
  next
    case (sent target)
    show ?thesis unfolding relay(2) sent(3) snd_conv
      by (rule file_only_cong [OF assms(1)]) (simp_all add: ws_send_def loadOnline_def)
  qed
next
  case pong
  show ?thesis unfolding pong snd_conv
    by (rule file_only_cong [OF assms(1)]) simp_all
qed

text \<open>A release of an identifier with another property key.\<close>
lemma file_only_released:
  assumes "file_only x u s" "key_of i \<noteq> Some x" "deleted i s = Some st"
    "sockets t = AList.delete i (sockets s)" "loadOnline t = JSON_stringify st"
    "\<And>c. myId (conns t c) = myId (conns s c)"
  shows "file_only x u t"
proof -
  obtain ps where ps: "presence s = Some ps" using file_only_presence [OF assms(1)] by blast
  obtain k where k: "key_of i = Some k" using deleted_key [OF assms(3)] by blast
  then have kx: "k \<noteq> x" using assms(2) by simp
  have "presence (t\<lparr>state_file := Some (JSON_stringify st)\<rparr>) = Some (written (obj_delete k ps))"
    using ps k assms(3) by (rule deleted_presence)
  then have pr: "presence t = Some (written (obj_delete k ps))"
    using presence_load [of t "t\<lparr>state_file := Some (JSON_stringify st)\<rparr>"] assms(5) by simp
  show ?thesis
  proof (rule file_only_written [OF assms(1) ps pr, where i = i and ws = 0 and j = "myId (conns s 0)"])
    show "(x, u') \<in> set (obj_delete k ps)" if "(x, u') \<in> set ps" for u'
      using that kx by (intro obj_delete_other) simp_all
    show "fst ` set (sockets t) \<subseteq> insert i (fst ` set (sockets s))"
      unfolding assms(4) by (auto simp add: delete_keys_set)
    show "key_of i \<noteq> Some x" by (rule assms(2))
    show "myId (conns t c) = (if c = 0 then myId (conns s 0) else myId (conns s c))" for c
      by (simp add: assms(6))
    show "key_of j \<noteq> Some x" if "myId (conns s 0) = Some j" for j
      using assms(1) that by (rule file_only_conn)
  qed
qed

lemma file_only_smaller:
  assumes "file_only x u s" "sockets t = AList.delete i (sockets s)" "loadOnline t = loadOnline s"
    "\<And>c. myId (conns t c) = myId (conns s c)"
  shows "file_only x u t"
  using assms(1) unfolding file_only_def assms(2) presence_load [OF assms(3)] assms(4)
  by (auto simp add: delete_keys_set)

lemma on_close_file_only:
  assumes "file_only x u s"
  shows "file_only x u (snd (on_close ws s))"
proof (cases rule: on_close_cases [of s ws])
  case unbound
  then show ?thesis using assms by simp
next
  case (threw i)
  show ?thesis unfolding threw(3) snd_conv
    by (rule file_only_smaller [OF assms, where i = i]) simp_all
next
  case (ok i st)
  have kx: "key_of i \<noteq> Some x" using assms ok(1) by (rule file_only_conn)
  have "file_only x u ((released i s)\<lparr>state_file := Some (JSON_stringify st)\<rparr>)"
    by (rule file_only_released [OF assms kx ok(4)]) simp_all
  then show ?thesis unfolding ok(5) by (rule file_only_broadcast)
qed

lemma sweep_file_only:
  assumes "file_only x u s" "\<And>i ws. (i, ws) \<in> set ps \<Longrightarrow> key_of i \<noteq> Some x"
  shows "file_only x u (snd (sweep ps s))"
  using assms(1)
proof (rule sweep_rule)
  fix i ws s st
  assume a: "file_only x u s" "(i, ws) \<in> set ps" "deleted i s = Some st"
  show "file_only x u ((evict i ws s)\<lparr>state_file := Some (JSON_stringify st)\<rparr>)"
    by (rule file_only_released [OF a(1) assms(2) [OF a(2)] a(3)]) simp_all
next
  fix i ws s
  assume a: "file_only x u s"
  show "file_only x u (evict i ws s)"
    by (rule file_only_smaller [OF a, where i = i]) simp_all
next
  fix i ws s
  assume "file_only x u s"
  then show "file_only x u (probe ws s)" by (rule file_only_cong) simp_all
qed

lemma heartbeat_file_only:
  assumes "file_only x u s"
  shows "file_only x u (snd (heartbeat s))"
proof -
  have "file_only x u (snd (sweep (sockets s) s))" using assms
  proof (rule sweep_file_only)
    fix i ws assume "(i, ws) \<in> set (sockets s)"
    then have "i \<in> fst ` set (sockets s)" by force
    with assms show "key_of i \<noteq> Some x" by (rule file_only_reg)
  qed
  then show ?thesis
    by (cases "fst (sweep (sockets s) s)") (simp_all add: heartbeat_def seq_def file_only_broadcast)
qed

lemma step_file_only:
  assumes "file_only x u s" "\<not> binds x e"
  shows "file_only x u (snd (step e s))"
proof (cases e)
  case Connection
  show ?thesis unfolding Connection step.simps snd_conv
    by (rule file_only_myId [OF assms(1), where ws = "next_ws s" and j = None]) simp_all
next
  case (Message ws m)
  then show ?thesis using on_message_file_only [of x u s ws m] assms
    by (cases "ws < next_ws s") simp_all
next
  case (PongFrame ws)
  have "file_only x u (on_pong ws s)" unfolding on_pong_def
    by (rule file_only_cong [OF assms(1)]) simp_all
  then show ?thesis using assms(1) unfolding PongFrame by simp
next
  case (Closing ws)
  have "file_only x u (set_readyState ws CLOSING s)"
    by (rule file_only_cong [OF assms(1)]) simp_all
  then show ?thesis using assms(1) unfolding Closing by simp
next
  case (Close ws)
  have c: "file_only x u (set_readyState ws CLOSED s)"
    by (rule file_only_cong [OF assms(1)]) simp_all
  show ?thesis using on_close_file_only [OF c, of ws] assms(1) unfolding Close
    by (cases "ws < next_ws s") simp_all
next
  case Tick
  then show ?thesis using heartbeat_file_only [OF assms(1)] by simp
next
  case (Disk b)
  have "file_only x u (s\<lparr>disk_ok := b\<rparr>)" by (rule file_only_cong [OF assms(1)]) simp_all
  then show ?thesis unfolding Disk by simp
qed

lemma file_only_online:
  assumes "file_only x u s"
  shows "\<exists>us. http_online s = Some us \<and> JSON_stringify u \<in> set us"
proof -
  obtain ps where p: "presence s = Some ps" "(x, u) \<in> set ps \<or> (x, JSON_stringify u) \<in> set ps"
    using assms unfolding file_only_def by blast
  have "http_online s = Some (map JSON_stringify (map snd ps))"
    by (simp add: http_online_def presence_values [OF p(1)])
  moreover have "JSON_stringify u \<in> set (map JSON_stringify (map snd ps))"
    using p(2) by force
  ultimately show ?thesis by blast
qed

lemma step_listed:
  assumes "file_only x u s" "listed u s" "\<not> binds x e"
  shows "listed u (snd (step e s))"
  unfolding listed_def
proof (intro allI impI)
  fix c us
  assume "Send c (Online us) \<in> set (outs (snd (step e s)))"
  then consider "Send c (Online us) \<in> set (outs s)"
    | "Send c (Online us) \<in> set (new_outs s (snd (step e s)))"
    using step_sent by blast
  then show "JSON_stringify u \<in> set us"
  proof cases
    case 1
    then show ?thesis using assms(2) unfolding listed_def by blast
  next
    case 2
    then have "http_online (snd (step e s)) = Some us" by (rule step_payload)
    moreover have "\<exists>us. http_online (snd (step e s)) = Some us \<and> JSON_stringify u \<in> set us"
      by (rule file_only_online) (rule step_file_only [OF assms(1,3)])
    ultimately show ?thesis by auto
  qed
qed

lemma run_file_only:
  assumes "file_only x u s" "listed u s" "\<forall>e \<in> set es. \<not> binds x e"
  shows "file_only x u (snd (run es s)) \<and> listed u (snd (run es s))"
  using assms
proof (induction es arbitrary: s)
  case Nil
  then show ?case by simp
next
  case (Cons e es)
  have nb: "\<not> binds x e" using Cons.prems(3) by simp
  have f: "file_only x u (snd (step e s))" using Cons.prems(1) nb by (rule step_file_only)
  have l: "listed u (snd (step e s))" using Cons.prems(1,2) nb by (rule step_listed)
  show ?case
  proof (cases "fst (step e s)")
    case Returned
    then have "run (e # es) s = run es (snd (step e s))" by (simp add: seq_def)
    then show ?thesis using Cons.IH [OF f l] Cons.prems(3) by simp
  next
    case Threw
    then have "snd (run (e # es) s) = snd (step e s)" by (simp add: seq_def)
    then show ?thesis using f l by simp
  qed
qed

subsection \<open>Keys that no connection has bound\<close>

lemma has_key_load: "loadOnline t = loadOnline s \<Longrightarrow> has_key x t = has_key x s"
  by (simp add: has_key_def presence_def)

lemma has_key_broadcast: "has_key x (snd (broadcastOnline s)) = has_key x s"
  by (rule has_key_load) simp

lemma has_key_assigned:
  assumes "has_key x s" "assigned i e s = Some st"
  shows "has_key x (t\<lparr>state_file := Some (JSON_stringify st)\<rparr>)"
proof -
  obtain ps where ps: "presence s = Some ps" "x \<in> fst ` set ps"
    using assms(1) unfolding has_key_def by blast
  obtain k where k: "key_of i = Some k" using assigned_key [OF assms(2)] by blast
  have "presence (t\<lparr>state_file := Some (JSON_stringify st)\<rparr>) = Some (written (obj_set k e ps))"
    using ps(1) k assms(2) by (rule assigned_presence)
  moreover have "x \<in> fst ` set (written (obj_set k e ps))"
    using ps(2) by (simp add: obj_set_keeps_keys)
  ultimately show ?thesis unfolding has_key_def by blast
qed

lemma has_key_deleted:
  assumes "has_key x s" "deleted i s = Some st" "key_of i \<noteq> Some x"
  shows "has_key x (t\<lparr>state_file := Some (JSON_stringify st)\<rparr>)"
proof -
  obtain ps where ps: "presence s = Some ps" "x \<in> fst ` set ps"
    using assms(1) unfolding has_key_def by blast
  obtain k where k: "key_of i = Some k" using deleted_key [OF assms(2)] by blast
  then have kx: "k \<noteq> x" using assms(3) by simp
  have "presence (t\<lparr>state_file := Some (JSON_stringify st)\<rparr>) = Some (written (obj_delete k ps))"
    using ps(1) k assms(2) by (rule deleted_presence)
  moreover have "x \<in> fst ` set (written (obj_delete k ps))"
    using ps(2) kx by (simp add: obj_delete_keys)
  ultimately show ?thesis unfolding has_key_def by blast
qed

lemma hello_keeps_key:
  assumes "has_key x s"
  shows "has_key x (snd (hello ws msg s))"
proof (cases rule: hello_cases [of msg ws s])
  case noid
  then show ?thesis using assms by (simp add: has_key_def)
next
  case (falsy v)
  then show ?thesis using assms by (simp add: has_key_def)
next
  case (threw v)
  then show ?thesis using assms by (simp add: has_key_def)
next
  case (ok v st)
  show ?thesis unfolding ok(5) has_key_broadcast using assms ok(4) by (rule has_key_assigned)
qed

lemma on_message_keeps_key:
  assumes "has_key x s"
  shows "has_key x (snd (on_message ws m s))"
proof (cases rule: on_message_cases [of ws m s])
  case (hello msg)
  then show ?thesis using hello_keeps_key [OF assms, of ws msg] by simp
next
  case (relay msg)
  then show ?thesis using assms
    by (cases rule: relay_cases [of msg s]) (simp_all add: has_key_def ws_send_def)
qed (use assms in \<open>simp_all add: has_key_def\<close>)

lemma on_close_keeps_key:
  assumes "has_key x s" "\<And>i. myId (conns s ws) = Some i \<Longrightarrow> key_of i \<noteq> Some x"
  shows "has_key x (snd (on_close ws s))"
proof (cases rule: on_close_cases [of s ws])
  case unbound
  then show ?thesis using assms(1) by simp
next
  case (threw i)
  then show ?thesis using assms(1) by (simp add: has_key_def)
next
  case (ok i st)
  show ?thesis unfolding ok(5) has_key_broadcast
    using assms(1) ok(4) assms(2) [OF ok(1)] by (rule has_key_deleted)
qed

lemma sweep_keeps_key:
  assumes "has_key x s" "\<And>i ws. (i, ws) \<in> set ps \<Longrightarrow> key_of i \<noteq> Some x"
  shows "has_key x (snd (sweep ps s))"
  using assms(1)
proof (rule sweep_rule)
  fix i ws s st
  assume a: "has_key x s" "(i, ws) \<in> set ps" "deleted i s = Some st"
  show "has_key x ((evict i ws s)\<lparr>state_file := Some (JSON_stringify st)\<rparr>)"
    using a(1,3) assms(2) [OF a(2)] by (rule has_key_deleted)
next
  fix i ws s
  assume "has_key x s"
  then show "has_key x (evict i ws s)" by (simp add: has_key_def)
next
  fix i ws s
  assume "has_key x s"
  then show "has_key x (probe ws s)" by (simp add: has_key_def)
qed

lemma heartbeat_keeps_key:
  assumes "has_key x s" "\<And>i. i \<in> fst ` set (sockets s) \<Longrightarrow> key_of i \<noteq> Some x"
  shows "has_key x (snd (heartbeat s))"
proof -
  have "has_key x (snd (sweep (sockets s) s))" using assms(1)
  proof (rule sweep_keeps_key)
    fix i ws assume "(i, ws) \<in> set (sockets s)"
    then have "i \<in> fst ` set (sockets s)" by force
    then show "key_of i \<noteq> Some x" by (rule assms(2))
  qed
  then show ?thesis
    by (cases "fst (sweep (sockets s) s)") (simp_all add: heartbeat_def seq_def has_key_broadcast)
qed

lemma step_keeps_unbound_key:
  assumes "has_key x s" "\<And>i. i \<in> fst ` set (sockets s) \<Longrightarrow> key_of i \<noteq> Some x"
    "\<And>c i. myId (conns s c) = Some i \<Longrightarrow> key_of i \<noteq> Some x"
  shows "has_key x (snd (step e s))"
proof (cases e)
  case Connection
  then show ?thesis using assms(1) by (simp add: has_key_def)
next
  case (Message ws m)
  then show ?thesis using on_message_keeps_key [OF assms(1), of ws m] assms(1)
    by (cases "ws < next_ws s") simp_all
next
  case (PongFrame ws)
  then show ?thesis using assms(1)
    by (cases "ws < next_ws s") (simp_all add: has_key_def on_pong_def)
next
  case (Closing ws)
  then show ?thesis using assms(1)
    by (cases "ws < next_ws s \<and> readyState (conns s ws) = OPEN") (simp_all add: has_key_def)
next
  case (Close ws)
  have "has_key x (snd (on_close ws (set_readyState ws CLOSED s)))"
  proof (rule on_close_keeps_key)
    show "has_key x (set_readyState ws CLOSED s)" using assms(1) by (simp add: has_key_def)
    show "key_of i \<noteq> Some x" if "myId (conns (set_readyState ws CLOSED s) ws) = Some i" for i
      using that assms(3) [of ws i] by simp
  qed
  then show ?thesis using assms(1) unfolding Close by (cases "ws < next_ws s") simp_all
next
  case Tick
  then show ?thesis using heartbeat_keeps_key [OF assms(1,2)] by simp
next
  case (Disk b)
  then show ?thesis using assms(1) by (simp add: has_key_def)
qed

subsection \<open>The example runs\<close>

lemmas model_defs =
  init_def on_connection_def hello_of_def alice_def bob_def bob_as_a1_def no_id_def users_file_def
  on_message_def hello_def hello_id_def ident_of_def member_def truthy_def is_object_def key_of_def
  entry_def users_set_def users_delete_def obj_set_def obj_delete_def arr_set_def arr_delete_def
  array_index_def Object_values_def loadOnline_def saveOnline_def seq_def broadcastOnline_def
  ws_send_def set_myId_def set_isAlive_def set_readyState_def ws_ping_def ws_terminate_def
  on_close_def heartbeat_def relay_def sockets_get_def on_pong_def presence_def http_online_def
  Let_def sweep.simps(2)

lemma scenario_run:
  "run scenario (init None True) =
     (Returned, two_online\<lparr>outs := [Send 0 (Online [alice]),
                                      Send 0 (Online [alice, bob]), Send 1 (Online [alice, bob])]\<rparr>)"
  by (simp add: scenario_def two_online_def model_defs)

lemma supersede_run_result:
  "run supersede_run (init None True) =
     (Returned, superseded\<lparr>outs := [Send 0 (Online [alice]), Send 1 (Online [bob_as_a1])]\<rparr>)"
  by (simp add: supersede_run_def superseded_def model_defs)

lemma stale_run_result:
  "presence (snd (run stale_run (init (Some (users_file [(''a1'', alice)])) True)))
     = Some [(''a1'', alice)]"
  "http_online (snd (run stale_run (init (Some (users_file [(''a1'', alice)])) True)))
     = Some [alice]"
  "sockets (snd (run stale_run (init (Some (users_file [(''a1'', alice)])) True))) = []"
  "outs (snd (run stale_run (init (Some (users_file [(''a1'', alice)])) True))) =
     [Send 0 (Online [alice, bob]), Ping 0, Send 0 (Online [alice, bob]), Terminate 0]"
  by (simp_all add: stale_run_def model_defs)

lemma stale_run_big:
  "presence (snd (run stale_run (init (Some (users_file [(''a1'', big_alice)])) True)))
     = Some [(''a1'', null_alice)]"
  "http_online (snd (run stale_run (init (Some (users_file [(''a1'', big_alice)])) True)))
     = Some [null_alice]"
  "outs (snd (run stale_run (init (Some (users_file [(''a1'', big_alice)])) True))) =
     [Send 0 (Online [null_alice, bob]), Ping 0, Send 0 (Online [null_alice, bob]), Terminate 0]"
  by (simp_all add: stale_run_def big_alice_def null_alice_def model_defs)

section \<open>Relaying\<close>

text \<open>
  C2, as the code has it. A message of type \<open>offer\<close>, \<open>answer\<close>, \<open>ice\<close> or \<open>end\<close>
  whose \<open>to\<close> member is a key of the registry, with an open channel under it, is
  delivered to that channel and to no other: the handler makes one call, \<open>send\<close> on
  that channel, changes nothing else and returns. What it sends is
  \<open>JSON.stringify\<close> of the message it parsed. When \<open>to\<close> is missing or is no key of
  the registry, the handler returns and the state is as it was: no channel receives
  anything and nothing is thrown.
\<close>
theorem C2_relay_only_to_named_recipient:
  assumes "member ''type'' msg = Some (JStr ''offer'') \<or> member ''type'' msg = Some (JStr ''answer'')
           \<or> member ''type'' msg = Some (JStr ''ice'') \<or> member ''type'' msg = Some (JStr ''end'')"
  shows "(\<forall>t target.
            member ''to'' msg = Some t \<and> \<not> is_object t
            \<and> map_of (sockets s) (Primitive t) = Some target \<and> readyState (conns s target) = OPEN
            \<longrightarrow> on_message ws (Some msg) s
                  = (Returned, s\<lparr>outs := outs s @ [Send target (Relay (JSON_stringify msg))]\<rparr>))
       \<and> (member ''to'' msg = None
            \<or> (\<exists>t. member ''to'' msg = Some t \<and> (is_object t \<or> map_of (sockets s) (Primitive t) = None))
            \<longrightarrow> on_message ws (Some msg) s = (Returned, s))"
proof -
  have nn: "msg \<noteq> JNull" using assms by (auto simp add: member_def)
  have nh: "member ''type'' msg \<noteq> Some (JStr ''hello'')" using assms by auto
  have r: "on_message ws (Some msg) s = relay msg s"
    unfolding on_message_def using nn nh assms by (simp only: option.case if_False if_True)
  show ?thesis unfolding r
    by (auto simp add: relay_def sockets_get_def ws_send_def)
qed

theorem C2_witness:
  "on_message 0 (Some offer_b) two_online
     = (Returned, two_online\<lparr>outs := [Send 1 (Relay offer_b)]\<rparr>)
   \<and> on_message 0 (Some offer_z) two_online = (Returned, two_online)"
proof -
  have tb: "member ''type'' offer_b = Some (JStr ''offer'') \<or> member ''type'' offer_b = Some (JStr ''answer'')
           \<or> member ''type'' offer_b = Some (JStr ''ice'') \<or> member ''type'' offer_b = Some (JStr ''end'')"
    by (simp add: offer_b_def member_def)
  have tz: "member ''type'' offer_z = Some (JStr ''offer'') \<or> member ''type'' offer_z = Some (JStr ''answer'')
           \<or> member ''type'' offer_z = Some (JStr ''ice'') \<or> member ''type'' offer_z = Some (JStr ''end'')"
    by (simp add: offer_z_def member_def)
  have b: "member ''to'' offer_b = Some (JStr ''b1'') \<and> \<not> is_object (JStr ''b1'')
            \<and> map_of (sockets two_online) (Primitive (JStr ''b1'')) = Some 1
            \<and> readyState (conns two_online 1) = OPEN"
    by (simp add: offer_b_def member_def is_object_def two_online_def)
  have z: "member ''to'' offer_z = None
            \<or> (\<exists>t. member ''to'' offer_z = Some t
                  \<and> (is_object t \<or> map_of (sockets two_online) (Primitive t) = None))"
    by (simp add: offer_z_def member_def two_online_def)
  have "on_message 0 (Some offer_b) two_online
          = (Returned, two_online\<lparr>outs := outs two_online @ [Send 1 (Relay (JSON_stringify offer_b))]\<rparr>)"
    using C2_relay_only_to_named_recipient [OF tb, of two_online 0, THEN conjunct1] b by blast
  moreover have "outs two_online = []" "JSON_stringify offer_b = offer_b"
    by (simp_all add: two_online_def offer_b_def)
  moreover have "on_message 0 (Some offer_z) two_online = (Returned, two_online)"
    using C2_relay_only_to_named_recipient [OF tz, of two_online 0, THEN conjunct2] z by blast
  ultimately show ?thesis by simp
qed

text \<open>
  C2 says that the message arrives with all fields unchanged. It does not: the
  server sends \<open>JSON.stringify(JSON.parse(text))\<close>. In an \<open>offer\<close> for \<open>b1\<close> whose
  \<open>sdp\<close> member is the literal \<open>1e999\<close>, \<open>JSON.parse\<close> reads \<open>Infinity\<close> and
  \<open>JSON.stringify\<close> writes \<open>null\<close>: \<open>b1\<close> receives the offer with \<open>sdp\<close> \<open>null\<close>.
\<close>
theorem C2_counterexample:
  "member ''sdp'' big_offer = Some (JNum PosInfinity)
   \<and> on_message 0 (Some big_offer) two_online
       = (Returned, two_online\<lparr>outs := [Send 1 (Relay null_offer)]\<rparr>)
   \<and> member ''sdp'' null_offer = Some JNull"
  by (simp add: big_offer_def null_offer_def two_online_def model_defs)

section \<open>Broadcast\<close>




section \<open>Closing a connection\<close>






text \<open>
  C9 fails when the file cannot be written. In \<open>superseded\<close> connection 0 holds
  \<open>a1\<close> in \<open>myId\<close> and the registry maps \<open>a1\<close> to the later connection 1, which is
  open. The \<open>close\<close> handler of connection 0 deletes \<open>a1\<close> from the registry and
  then ends by the exception of \<open>saveOnline\<close>: the stored presence list still has the
  entry of \<open>a1\<close>, so \<open>a1\<close> has been deleted from one of the two only.
\<close>
theorem C9_superseded_close_with_failing_write:
  "myId (conns superseded_disk_full 0) = Some (str ''a1'')
   \<and> sockets superseded_disk_full = [(str ''a1'', 1)]
   \<and> readyState (conns superseded_disk_full 1) = OPEN
   \<and> fst (step (Close 0) superseded_disk_full) = Threw
   \<and> sockets (snd (step (Close 0) superseded_disk_full)) = []
   \<and> presence (snd (step (Close 0) superseded_disk_full)) = Some [(''a1'', bob_as_a1)]
   \<and> readyState (conns (snd (step (Close 0) superseded_disk_full)) 1) = OPEN
   \<and> outs (snd (step (Close 0) superseded_disk_full)) = []"
  by (simp add: superseded_disk_full_def superseded_def model_defs)

section \<open>The liveness sweep\<close>

text \<open>
  C3 fails when the file cannot be written. In \<open>silent_a_disk_full\<close> connection 0
  (\<open>a1\<close>) has not answered the last probe and connection 1 (\<open>b1\<close>) has. The tick
  terminates connection 0, deletes \<open>a1\<close> from the registry and ends by the exception
  of \<open>saveOnline\<close>: \<open>a1\<close> stays in the stored presence list, connection 1 is not
  probed and keeps its flag, and no broadcast is sent.

  It also fails for a connection that two \<open>hello\<close> messages have registered under
  two identifiers, as in \<open>twice_registered\<close>, where the file can be written. The
  connection has answered the last probe. The tick probes it at its first registry
  entry, finds the flag it has just cleared at the second, and terminates it: the
  second identifier is evicted in the tick that first probed the connection.
\<close>
theorem C3_tick_with_failing_write_stops_the_sweep:
  "\<not> isAlive (conns silent_a_disk_full 0) \<and> isAlive (conns silent_a_disk_full 1)
   \<and> sockets silent_a_disk_full = [(str ''a1'', 0), (str ''b1'', 1)]
   \<and> fst (step Tick silent_a_disk_full) = Threw
   \<and> sockets (snd (step Tick silent_a_disk_full)) = [(str ''b1'', 1)]
   \<and> presence (snd (step Tick silent_a_disk_full)) = Some [(''a1'', alice), (''b1'', bob)]
   \<and> isAlive (conns (snd (step Tick silent_a_disk_full)) 1)
   \<and> outs (snd (step Tick silent_a_disk_full)) = [Terminate 0]
   \<and> isAlive (conns twice_registered 0)
   \<and> sockets twice_registered = [(str ''a1'', 0), (str ''a2'', 0)]
   \<and> fst (step Tick twice_registered) = Returned
   \<and> sockets (snd (step Tick twice_registered)) = [(str ''a1'', 0)]
   \<and> presence (snd (step Tick twice_registered)) = Some [(''a1'', alice)]
   \<and> outs (snd (step Tick twice_registered)) = [Ping 0, Terminate 0]"
  by (simp add: silent_a_disk_full_def silent_a_def two_online_def twice_registered_def model_defs)

section \<open>Presence and registry\<close>

text \<open>
  C1, as the code has it. Start the server with \<open>online.json\<close> missing or unreadable,
  or holding an object whose \<open>users\<close> member is an empty object, and let any sequence
  of events run in which every handler returns and every \<open>hello\<close> has an identifier
  that is a string, or none that passes the test \<open>!myId\<close>. Then the stored presence
  list is an object, every registry key is a string, and every identifier other than
  \<open>__proto__\<close> is a key of the stored presence list exactly when it is a registry
  key. A handler that changes one of the two changes the other before it
  broadcasts: whatever the next such event is, if its handler returns, every
  presence list it has sent names exactly the identifiers the registry holds when it
  returns.
\<close>
theorem C1_presence_matches_registry:
  assumes "presence (init f d) = Some []" and "\<forall>e \<in> set es. string_id e"
    and "run es (init f d) = (Returned, s)"
  shows "(\<exists>ps. presence s = Some ps
            \<and> (\<forall>x. x \<noteq> ''__proto__'' \<longrightarrow> (x \<in> fst ` set ps \<longleftrightarrow> str x \<in> fst ` set (sockets s))))
       \<and> (\<forall>i \<in> fst ` set (sockets s). \<exists>x. i = str x)
       \<and> (\<forall>e c us x. string_id e \<and> fst (step e s) = Returned
              \<and> Send c (Online us) \<in> set (new_outs s (snd (step e s)))
              \<and> x \<noteq> ''__proto__''
            \<longrightarrow> (Some (JStr x) \<in> member ''id'' ` set us
                   \<longleftrightarrow> str x \<in> fst ` set (sockets (snd (step e s)))))"
proof -
  have sy: "in_sync s"
    using assms(3) init_sync [OF assms(1)] assms(2) by (rule run_sync)
  have keys: "\<exists>ps. presence t = Some ps \<and> keyed ps
                \<and> (\<forall>x. x \<noteq> ''__proto__'' \<longrightarrow> (x \<in> fst ` set ps \<longleftrightarrow> str x \<in> fst ` set (sockets t)))"
    if t: "in_sync t" for t
  proof -
    from in_sync_dest [OF t] obtain ps where p: "presence t = Some ps \<and> keyed ps
      \<and> fst ` set ps = {u. str u \<in> fst ` set (sockets t)} - {''__proto__''}" ..
    have "x \<in> fst ` set ps \<longleftrightarrow> str x \<in> fst ` set (sockets t)" if "x \<noteq> ''__proto__''" for x
      using p [THEN conjunct2, THEN conjunct2] that by (rule in_sync_iff)
    then show ?thesis using p by (intro exI [of _ ps]) simp
  qed
  have one: "\<exists>ps. presence s = Some ps
            \<and> (\<forall>x. x \<noteq> ''__proto__'' \<longrightarrow> (x \<in> fst ` set ps \<longleftrightarrow> str x \<in> fst ` set (sockets s)))"
  proof -
    from keys [OF sy] obtain ps where "presence s = Some ps \<and> keyed ps
      \<and> (\<forall>x. x \<noteq> ''__proto__'' \<longrightarrow> (x \<in> fst ` set ps \<longleftrightarrow> str x \<in> fst ` set (sockets s)))" ..
    then show ?thesis by (intro exI [of _ ps]) simp
  qed
  have two: "\<exists>x. i = str x" if "i \<in> fst ` set (sockets s)" for i
  proof -
    have "string_ident i" "truthy (value_of i)" using in_sync_reg [OF sy that] by simp_all
    then obtain t where "i = str t \<and> t \<noteq> []" using string_ident_truthy by blast
    then show ?thesis by blast
  qed
  have three: "Some (JStr x) \<in> member ''id'' ` set us \<longleftrightarrow> str x \<in> fst ` set (sockets (snd (step e s)))"
    if h: "string_id e" "fst (step e s) = Returned"
      "Send c (Online us) \<in> set (new_outs s (snd (step e s)))" "x \<noteq> ''__proto__''" for e c us x
  proof -
    have "in_sync (snd (step e s))" using sy h(1,2) by (rule step_sync)
    from keys [OF this] obtain ps where p: "presence (snd (step e s)) = Some ps \<and> keyed ps
      \<and> (\<forall>x. x \<noteq> ''__proto__'' \<longrightarrow>
            (x \<in> fst ` set ps \<longleftrightarrow> str x \<in> fst ` set (sockets (snd (step e s)))))" ..
    have "http_online (snd (step e s)) = Some us" using h(3) by (rule step_payload)
    then have us: "us = map snd (written ps)"
      using p by (simp add: http_online_def presence_values written_values)
    have "keyed (written ps)" using p by (simp add: keyed_written)
    then have "member ''id'' ` set us = Some ` JStr ` fst ` set ps"
      unfolding us using keyed_values [of "written ps"] by simp
    then have "Some (JStr x) \<in> member ''id'' ` set us \<longleftrightarrow> x \<in> fst ` set ps" by auto
    then show ?thesis using p h(4) by simp
  qed
  show ?thesis
  proof (intro conjI ballI allI impI)
    show "\<exists>ps. presence s = Some ps
            \<and> (\<forall>x. x \<noteq> ''__proto__'' \<longrightarrow> (x \<in> fst ` set ps \<longleftrightarrow> str x \<in> fst ` set (sockets s)))"
      by (rule one)
  next
    fix i assume "i \<in> fst ` set (sockets s)"
    then show "\<exists>x. i = str x" by (rule two)
  next
    fix e c us x
    assume a: "string_id e \<and> fst (step e s) = Returned
              \<and> Send c (Online us) \<in> set (new_outs s (snd (step e s)))
              \<and> x \<noteq> ''__proto__''"
    show "Some (JStr x) \<in> member ''id'' ` set us \<longleftrightarrow> str x \<in> fst ` set (sockets (snd (step e s)))"
      by (rule three [OF a [THEN conjunct1] a [THEN conjunct2, THEN conjunct1]
            a [THEN conjunct2, THEN conjunct2, THEN conjunct1]
            a [THEN conjunct2, THEN conjunct2, THEN conjunct2]])
  qed
qed

theorem C1_witness:
  "presence (init None True) = Some []
   \<and> list_all string_id scenario
   \<and> run scenario (init None True) =
       (Returned, two_online\<lparr>outs := [Send 0 (Online [alice]),
                                        Send 0 (Online [alice, bob]), Send 1 (Online [alice, bob])]\<rparr>)
   \<and> presence two_online = Some [(''a1'', alice), (''b1'', bob)]
   \<and> (''a1'' \<in> fst ` set [(''a1'', alice), (''b1'', bob)] \<longleftrightarrow> str ''a1'' \<in> fst ` set (sockets two_online))
   \<and> (''zz'' \<in> fst ` set [(''a1'', alice), (''b1'', bob)] \<longleftrightarrow> str ''zz'' \<in> fst ` set (sockets two_online))"
proof -
  let ?s = "two_online\<lparr>outs := [Send 0 (Online [alice]),
                                 Send 0 (Online [alice, bob]), Send 1 (Online [alice, bob])]\<rparr>"
  have f: "presence (init None True) = Some []" by (simp add: model_defs)
  have l: "list_all string_id scenario"
    by (simp add: scenario_def string_id_def hello_of_def alice_def bob_def hello_id_def member_def)
  then have g: "\<forall>e \<in> set scenario. string_id e" by (simp add: list_all_iff)
  have p: "presence ?s = Some [(''a1'', alice), (''b1'', bob)]"
    "presence two_online = Some [(''a1'', alice), (''b1'', bob)]"
    by (simp_all add: two_online_def model_defs)
  have n: "''a1'' \<noteq> ''__proto__''" "''zz'' \<noteq> ''__proto__''" by simp_all
  from C1_presence_matches_registry [OF f g scenario_run, THEN conjunct1]
  obtain ps where ps: "presence ?s = Some ps
      \<and> (\<forall>x. x \<noteq> ''__proto__'' \<longrightarrow> (x \<in> fst ` set ps \<longleftrightarrow> str x \<in> fst ` set (sockets ?s)))" ..
  then have e: "ps = [(''a1'', alice), (''b1'', bob)]" using p(1) by simp
  have s: "sockets ?s = sockets two_online" by simp
  have "''a1'' \<in> fst ` set ps \<longleftrightarrow> str ''a1'' \<in> fst ` set (sockets two_online)"
    using ps [THEN conjunct2, rule_format, OF n(1)] unfolding s .
  moreover
  have "''zz'' \<in> fst ` set ps \<longleftrightarrow> str ''zz'' \<in> fst ` set (sockets two_online)"
    using ps [THEN conjunct2, rule_format, OF n(2)] unfolding s .
  ultimately show ?thesis using f l p(2) scenario_run unfolding e by (intro conjI)
qed

text \<open>
  C1 fails in three ways. The server starts with whatever \<open>online.json\<close> holds and an
  empty registry, so an entry left in the file is in the stored presence list of the
  first state and in no registry. An identifier need not be a string: after a client
  has registered as the number \<open>5\<close>, a second one as the string \<open>"5"\<close>, and the first
  has closed, every handler has returned, the registry has the key \<open>"5"\<close> and the
  stored presence list is empty, because the two registry keys are one property key.
  And when \<open>online.json\<close> holds \<open>{"users": []}\<close>, a \<open>hello\<close> returns and registers
  \<open>a1\<close>, but the property it has set on the array is not written: the file and the
  broadcast list nobody.
\<close>
theorem C1_counterexample:
  "presence (init (Some (users_file [(''a1'', alice)])) True) = Some [(''a1'', alice)]
   \<and> sockets (init (Some (users_file [(''a1'', alice)])) True) = []
   \<and> fst (run five_run (init None True)) = Returned
   \<and> sockets (snd (run five_run (init None True))) = [(str ''5'', 1)]
   \<and> presence (snd (run five_run (init None True))) = Some []
   \<and> fst (run one_hello (init (Some array_file) True)) = Returned
   \<and> sockets (snd (run one_hello (init (Some array_file) True))) = [(str ''a1'', 0)]
   \<and> loadOnline (snd (run one_hello (init (Some array_file) True))) = array_file
   \<and> outs (snd (run one_hello (init (Some array_file) True))) = [Send 0 (Online [])]"
  by (simp add: five_run_def one_hello_def array_file_def model_defs)

section \<open>Entries left in the file\<close>

text \<open>
  C10. An entry that the \<open>users\<close> object of \<open>online.json\<close> holds at start-up (the
  registry is empty then) stays in the stored presence list through every sequence of
  events in which no connection says \<open>hello\<close> with an identifier that has its
  property key, whether the handlers return or throw. It is stored as the file had it
  or, once a handler has rewritten the file, as \<open>JSON.stringify\<close> writes it; written
  that way it is in the answer of the \<open>/online\<close> route in the state reached and in
  every presence list sent up to then, and no registry key has its property key. The
  heartbeat deletes only identifiers it finds in the registry, so ticks are among the
  events that leave it there. And in any state, no event takes from the stored list
  a key that no registry key and no connection's \<open>myId\<close> has as its property key: a
  key leaves the list only after a connection has bound it.
\<close>
theorem C10_preseeded_entries_persist:
  assumes "map_of ms ''users'' = Some (JObj ps)" and "(x, u) \<in> set ps"
    and "\<forall>e \<in> set es. \<not> binds x e"
  shows "(\<exists>ps'. presence (snd (run es (init (Some (JObj ms)) d))) = Some ps'
            \<and> ((x, u) \<in> set ps' \<or> (x, JSON_stringify u) \<in> set ps'))
       \<and> (\<exists>us. http_online (snd (run es (init (Some (JObj ms)) d))) = Some us
            \<and> JSON_stringify u \<in> set us)
       \<and> (\<forall>i \<in> fst ` set (sockets (snd (run es (init (Some (JObj ms)) d)))). key_of i \<noteq> Some x)
       \<and> (\<forall>c us. Send c (Online us) \<in> set (outs (snd (run es (init (Some (JObj ms)) d))))
            \<longrightarrow> JSON_stringify u \<in> set us)
       \<and> (\<forall>t e. has_key x t \<and> (\<forall>i \<in> fst ` set (sockets t). key_of i \<noteq> Some x)
                  \<and> (\<forall>c i. myId (conns t c) = Some i \<longrightarrow> key_of i \<noteq> Some x)
                \<longrightarrow> has_key x (snd (step e t)))"
proof -
  let ?s = "snd (run es (init (Some (JObj ms)) d))"
  have "presence (init (Some (JObj ms)) d) = Some ps"
    using assms(1) by (simp add: presence_def loadOnline_def member_def init_def)
  then have "file_only x u (init (Some (JObj ms)) d)" "listed u (init (Some (JObj ms)) d)"
    using assms(2) by (simp_all add: file_only_def listed_def init_def)
  then have inv: "file_only x u ?s \<and> listed u ?s" using assms(3) by (rule run_file_only)
  then have f: "file_only x u ?s" by (rule conjunct1)
  have mem: "\<exists>ps'. presence ?s = Some ps' \<and> ((x, u) \<in> set ps' \<or> (x, JSON_stringify u) \<in> set ps')"
    using f by (rule file_only_entry)
  have web: "\<exists>us. http_online ?s = Some us \<and> JSON_stringify u \<in> set us"
    using f by (rule file_only_online)
  have reg: "\<forall>i \<in> fst ` set (sockets ?s). key_of i \<noteq> Some x"
    using file_only_reg [OF f] by blast
  have sent: "\<forall>c us. Send c (Online us) \<in> set (outs ?s) \<longrightarrow> JSON_stringify u \<in> set us"
    using inv unfolding listed_def by blast
  have kept: "\<forall>t e. has_key x t \<and> (\<forall>i \<in> fst ` set (sockets t). key_of i \<noteq> Some x)
                  \<and> (\<forall>c i. myId (conns t c) = Some i \<longrightarrow> key_of i \<noteq> Some x)
                \<longrightarrow> has_key x (snd (step e t))"
  proof (intro allI impI)
    fix t e
    assume a: "has_key x t \<and> (\<forall>i \<in> fst ` set (sockets t). key_of i \<noteq> Some x)
                  \<and> (\<forall>c i. myId (conns t c) = Some i \<longrightarrow> key_of i \<noteq> Some x)"
    show "has_key x (snd (step e t))"
    proof (rule step_keeps_unbound_key)
      show "has_key x t" using a by (rule conjunct1)
      show "key_of i \<noteq> Some x" if "i \<in> fst ` set (sockets t)" for i
        using a [THEN conjunct2, THEN conjunct1] that by (rule bspec)
      show "key_of i \<noteq> Some x" if "myId (conns t c) = Some i" for c i
        using a [THEN conjunct2, THEN conjunct2] that by blast
    qed
  qed
  show ?thesis
    by (intro conjI) (rule mem, rule web, rule reg, rule sent, rule kept)
qed

theorem C10_witness:
  "map_of [(''users'', JObj [(''a1'', alice)])] ''users'' = Some (JObj [(''a1'', alice)])
   \<and> (''a1'', alice) \<in> set [(''a1'', alice)]
   \<and> \<not> list_ex (binds ''a1'') stale_run
   \<and> (\<exists>us. http_online (snd (run stale_run (init (Some (users_file [(''a1'', alice)])) True))) = Some us
         \<and> JSON_stringify alice \<in> set us)
   \<and> JSON_stringify alice = alice
   \<and> http_online (snd (run stale_run (init (Some (users_file [(''a1'', alice)])) True))) = Some [alice]
   \<and> sockets (snd (run stale_run (init (Some (users_file [(''a1'', alice)])) True))) = []
   \<and> (\<exists>us. http_online (snd (run stale_run (init (Some (users_file [(''a1'', big_alice)])) True)))
               = Some us
         \<and> JSON_stringify big_alice \<in> set us)
   \<and> JSON_stringify big_alice = null_alice
   \<and> presence (snd (run stale_run (init (Some (users_file [(''a1'', big_alice)])) True)))
       = Some [(''a1'', null_alice)]
   \<and> outs (snd (run stale_run (init (Some (users_file [(''a1'', big_alice)])) True))) =
       [Send 0 (Online [null_alice, bob]), Ping 0, Send 0 (Online [null_alice, bob]), Terminate 0]"
proof -
  have h1: "map_of [(''users'', JObj [(''a1'', alice)])] ''users'' = Some (JObj [(''a1'', alice)])"
    by simp
  have h2: "(''a1'', alice) \<in> set [(''a1'', alice)]" by simp
  have h3: "\<forall>e \<in> set stale_run. \<not> binds ''a1'' e"
    by (simp add: stale_run_def binds_def hello_of_def bob_def hello_id_def member_def)
  have u: "users_file [(''a1'', alice)] = JObj [(''users'', JObj [(''a1'', alice)])]"
    by (simp add: users_file_def)
  have a: "JSON_stringify alice = alice" by (simp add: alice_def)
  have k1: "map_of [(''users'', JObj [(''a1'', big_alice)])] ''users'' = Some (JObj [(''a1'', big_alice)])"
    by simp
  have k2: "(''a1'', big_alice) \<in> set [(''a1'', big_alice)]" by simp
  have v: "users_file [(''a1'', big_alice)] = JObj [(''users'', JObj [(''a1'', big_alice)])]"
    by (simp add: users_file_def)
  have b: "JSON_stringify big_alice = null_alice" by (simp add: big_alice_def null_alice_def)
  from C10_preseeded_entries_persist [OF h1 h2 h3, of True, THEN conjunct2, THEN conjunct1]
  have 1: "\<exists>us. http_online (snd (run stale_run (init (Some (users_file [(''a1'', alice)])) True))) = Some us
         \<and> JSON_stringify alice \<in> set us"
    unfolding u .
  from C10_preseeded_entries_persist [OF k1 k2 h3, of True, THEN conjunct2, THEN conjunct1]
  have 2: "\<exists>us. http_online (snd (run stale_run (init (Some (users_file [(''a1'', big_alice)])) True)))
               = Some us
         \<and> JSON_stringify big_alice \<in> set us"
    unfolding v .
  have 3: "\<not> list_ex (binds ''a1'') stale_run" using h3 by (simp add: list_ex_iff)
  show ?thesis
    by (intro conjI h1 h2 3 1 a stale_run_result(2) stale_run_result(3) 2 b
          stale_run_big(1) stale_run_big(3))
qed

section \<open>Registration\<close>

lemma hello_ok:
  assumes "hello_id msg = Some v" "truthy v" "disk_ok s"
    "assigned (ident_of (next_obj s) v) (entry v msg) s = Some st"
  shows "hello ws msg s = broadcastOnline ((bound v ws s)\<lparr>state_file := Some (JSON_stringify st)\<rparr>)"
  using assms by (simp add: hello_def Let_def bound_def assigned_def saveOnline_def)

lemma written_fst: "map fst (written ps) = map fst ps"
  by (simp add: written_def comp_def)

text \<open>
  A \<open>hello\<close> whose identifier is a string other than \<open>__proto__\<close>, on a file with a
  \<open>users\<close> object and when the write succeeds, overwrites: afterwards the registry
  maps the identifier to the connection that sent it, the stored presence list has
  the sender's entry under it, and neither collection has gained a second entry for
  a key.
\<close>
lemma hello_overwrites:
  assumes "hello_id msg = Some (JStr x)" "x \<noteq> []" "x \<noteq> ''__proto__''" "disk_ok s"
    "presence s = Some ps"
  shows "fst (hello ws msg s) = Returned"
    and "map_of (sockets (snd (hello ws msg s))) (str x) = Some ws"
    and "presence (snd (hello ws msg s)) = Some (written (obj_set x (entry (JStr x) msg) ps))"
    and "map_of (written (obj_set x (entry (JStr x) msg) ps)) x
           = Some (JSON_stringify (entry (JStr x) msg))"
    and "distinct (map fst (sockets s)) \<Longrightarrow> distinct (map fst (sockets (snd (hello ws msg s))))"
    and "distinct (map fst ps) \<Longrightarrow> distinct (map fst (written (obj_set x (entry (JStr x) msg) ps)))"
proof -
  have i: "ident_of (next_obj s) (JStr x) = str x" by (simp add: ident_of_def is_object_def)
  have t: "truthy (JStr x)" using assms(2) by (simp add: truthy_def)
  obtain st where st: "assigned (str x) (entry (JStr x) msg) s = Some st"
    using assigned_some [OF assms(5), of "str x" x] by auto
  let ?t = "(bound (JStr x) ws s)\<lparr>state_file := Some (JSON_stringify st)\<rparr>"
  have h: "hello ws msg s = broadcastOnline ?t"
    using assms(1) t assms(4) st [folded i] by (rule hello_ok)
  have p: "presence ?t = Some (written (obj_set x (entry (JStr x) msg) ps))"
    using assms(5) _ st by (rule assigned_presence) simp
  show "fst (hello ws msg s) = Returned" unfolding h by (simp add: broadcast_presence [OF p])
  show "map_of (sockets (snd (hello ws msg s))) (str x) = Some ws"
    unfolding h by (simp add: i update_conv')
  show "presence (snd (hello ws msg s)) = Some (written (obj_set x (entry (JStr x) msg) ps))"
    unfolding h using p by simp
  show "map_of (written (obj_set x (entry (JStr x) msg) ps)) x
           = Some (JSON_stringify (entry (JStr x) msg))"
    using assms(3) by (simp add: map_of_written obj_set_get)
  show "distinct (map fst (sockets (snd (hello ws msg s))))" if "distinct (map fst (sockets s))"
    unfolding h using that by (simp add: i distinct_update)
  show "distinct (map fst (written (obj_set x (entry (JStr x) msg) ps)))" if "distinct (map fst ps)"
    using that by (simp add: written_fst obj_set_distinct)
qed

text \<open>
  C5 fails for the identifier \<open>__proto__\<close>. Two connections say \<open>hello\<close> with it, one
  after the other, on a server started without \<open>online.json\<close>. Both handlers return;
  the registry maps \<open>__proto__\<close> to the second connection, and the stored presence list
  is empty: no entry was replaced by the data of the second connection, because none
  was ever created.
\<close>
theorem C5_hello_proto_leaves_presence_empty:
  "fst (run proto_run (init None True)) = Returned
   \<and> sockets (snd (run proto_run (init None True))) = [(str ''__proto__'', 1)]
   \<and> loadOnline (snd (run proto_run (init None True))) = users_file []
   \<and> presence (snd (run proto_run (init None True))) = Some []
   \<and> outs (snd (run proto_run (init None True)))
       = [Send 0 (Online []), Send 1 (Online [])]"
  by (simp add: proto_run_def model_defs)

text \<open>
  C6 fails for a bound connection. In \<open>two_online\<close> connection 0 is bound to \<open>a1\<close>.
  A \<open>hello\<close> without \<open>id\<close> on it returns and leaves registry, file and calls as they
  were, but it has assigned \<open>myId\<close> before testing it: the connection is bound no
  more, and when it closes later the handler releases nothing, so \<open>a1\<close> stays in the
  registry, mapped to the closed connection, and in the stored presence list.
\<close>
theorem C6_hello_without_id_unbinds:
  "myId (conns two_online 0) = Some (str ''a1'')
   \<and> on_message 0 (Some (hello_of no_id)) two_online = (Returned, set_myId 0 None two_online)
   \<and> myId (conns (set_myId 0 None two_online) 0) = None
   \<and> step (Close 0) (set_myId 0 None two_online)
       = (Returned, set_readyState 0 CLOSED (set_myId 0 None two_online))
   \<and> map_of (sockets (set_readyState 0 CLOSED (set_myId 0 None two_online))) (str ''a1'') = Some 0
   \<and> presence (set_readyState 0 CLOSED (set_myId 0 None two_online))
       = Some [(''a1'', alice), (''b1'', bob)]"
  by (simp add: two_online_def model_defs)

section \<open>A failing write\<close>

text \<open>
  C8 fails: \<open>saveOnline\<close> lets the exception of a failing write escape. With the file
  not writable, a \<open>hello\<close> on a fresh connection ends by the exception after the
  registry has the identifier: no presence entry is stored and nothing is broadcast.
  In the heartbeat, with two connections that have not answered, the exception of the
  first eviction ends the loop: the second connection is neither terminated nor
  evicted, and nothing is broadcast.
\<close>
theorem C8_write_failure_escapes_the_handler:
  "fst (on_message 0 (Some (hello_of alice)) (on_connection (init None False))) = Threw
   \<and> sockets (snd (on_message 0 (Some (hello_of alice)) (on_connection (init None False))))
       = [(str ''a1'', 0)]
   \<and> loadOnline (snd (on_message 0 (Some (hello_of alice)) (on_connection (init None False))))
       = users_file []
   \<and> outs (snd (on_message 0 (Some (hello_of alice)) (on_connection (init None False)))) = []
   \<and> fst (heartbeat both_silent_disk_full) = Threw
   \<and> sockets (snd (heartbeat both_silent_disk_full)) = [(str ''b1'', 1)]
   \<and> loadOnline (snd (heartbeat both_silent_disk_full))
       = users_file [(''a1'', alice), (''b1'', bob)]
   \<and> outs (snd (heartbeat both_silent_disk_full)) = [Terminate 0]"
  by (simp add: both_silent_disk_full_def two_online_def model_defs)


end
